theory Spec2Isabelle
  imports Main "HOL-Library.Word"
begin

unbundle bit_operations_syntax

section \<open>The serialization codec of serialize.c\<close>

text \<open>
  The file serialize.c implements six foreign predicates over a SWI-Prolog stream:
  \<^verbatim>\<open>write_int32\<close>, \<^verbatim>\<open>read_int32\<close>, \<^verbatim>\<open>write_atom\<close>, \<^verbatim>\<open>read_atom\<close>, \<^verbatim>\<open>write_float\<close> and
  \<^verbatim>\<open>read_float\<close>. The embedding below follows the C text: a C \<^verbatim>\<open>int\<close> is a 32-bit word,
  an \<^verbatim>\<open>unsigned char\<close> an 8-bit word, a \<^verbatim>\<open>size_t\<close> and an \<^verbatim>\<open>intptr_t\<close> a 64-bit word,
  the stream is a record that every operation takes and returns, and a raised Prolog
  exception is the left summand of the result. The bodies are modelled from the point
  where \<^verbatim>\<open>get_stream_handle_ex\<close>, \<^verbatim>\<open>get_integer_ex\<close>, \<^verbatim>\<open>get_float_ex\<close> and
  \<^verbatim>\<open>PL_get_nchars\<close> have delivered the C values of the arguments.
\<close>

subsection \<open>C types\<close>

type_synonym byte = "8 word"
type_synonym cint = "32 word"
type_synonym size_t = "64 word"
type_synonym intptr_t = "64 word"
type_synonym term_t = nat

text \<open>The enumeration \<^verbatim>\<open>IOENC\<close> of SWI-Stream.h.\<close>

datatype IOENC =
  ENC_UNKNOWN | ENC_OCTET | ENC_ASCII | ENC_ISO_LATIN_1 | ENC_ANSI | ENC_UTF8
  | ENC_UNICODE_BE | ENC_UNICODE_LE | ENC_WCHAR

text \<open>
  Modelled from the spec: the stream (\<^verbatim>\<open>IOSTREAM\<close> of SWI-Stream.h, not part of
  serialize.c) is "an external, ordered byte sink/source" that supports writing bytes,
  reading bytes and "a per-call text-encoding mode switch". The record keeps the
  encoding field, the bytes still to be read, the bytes written so far, and the number
  of bytes the sink still accepts before a write fails.
\<close>

record IOSTREAM =
  encoding :: IOENC
  pending :: "byte list"
  written :: "byte list"
  room :: nat

text \<open>
  What the code takes from the host platform, as parameters: \<^verbatim>\<open>strerror\<close> (\<open>None\<close>
  stands for a null pointer), the value \<^verbatim>\<open>errno\<close> holds when a transfer has failed,
  whether \<^verbatim>\<open>malloc\<close> of a given size returns a block, and whether \<^verbatim>\<open>WORDS_BIGENDIAN\<close>
  is defined.
\<close>

record host =
  strerror :: "int \<Rightarrow> string option"
  errno :: int
  malloc_ok :: "size_t \<Rightarrow> bool"
  WORDS_BIGENDIAN :: bool

subsection \<open>Exceptions\<close>

text \<open>
  The three exception terms the file builds: \<^verbatim>\<open>error(io_error(Action, Stream),
  context(_, Msg))\<close>, \<^verbatim>\<open>error(type_error(Expected, Actual), _)\<close> and
  \<^verbatim>\<open>error(resource_error(What), _)\<close>. The last constructor is not an exception: it marks
  the one path of \<^verbatim>\<open>pl_read_atom\<close> on which C leaves the result undefined (see there).
\<close>

datatype exception =
  Io_error string term_t string
  | Type_error string term_t
  | Resource_error string
  | Indeterminate

text \<open>
  \<^verbatim>\<open>io_error\<close>, lines 65-84. The exception term is unified with a fresh term reference,
  so \<^verbatim>\<open>PL_unify_term\<close> is taken to succeed and the exception is raised.
\<close>

definition io_error :: "host \<Rightarrow> term_t \<Rightarrow> string \<Rightarrow> int \<Rightarrow> exception" where
  "io_error h stream action eno =
     (let msg = (case strerror h eno of None \<Rightarrow> ''Unknown error'' | Some m \<Rightarrow> m)
      in Io_error action stream msg)"

definition type_error :: "term_t \<Rightarrow> string \<Rightarrow> exception" where
  "type_error actual expected = Type_error expected actual"

definition resource_error :: "string \<Rightarrow> exception" where
  "resource_error what = Resource_error what"

subsection \<open>Stream primitives\<close>

text \<open>
  The functions of this subsection and of the next but one belong to the SWI-Prolog
  stream library (SWI-Stream.h), which serialize.c calls and does not contain.
\<close>

text \<open>
  Modelled from the spec: \<^verbatim>\<open>Sputc\<close> of the stream library ("write N bytes") appends one
  byte and returns it, or returns -1 when the sink accepts no more.
\<close>

definition Sputc :: "byte \<Rightarrow> IOSTREAM \<Rightarrow> int \<times> IOSTREAM" where
  "Sputc c s =
     (if room s = 0 then (- 1, s)
      else (uint c, s\<lparr>written := written s @ [c], room := room s - 1\<rparr>))"

text \<open>
  Modelled from the spec: \<^verbatim>\<open>Sgetc\<close> of the stream library ("read N bytes") takes the next
  byte, or returns -1 ("a single unified end-of-stream sentinel, distinct from a valid
  byte value") when the input has ended.
\<close>

definition Sgetc :: "IOSTREAM \<Rightarrow> int \<times> IOSTREAM" where
  "Sgetc s =
     (case pending s of
        [] \<Rightarrow> (- 1, s)
      | c # cs \<Rightarrow> (uint c, s\<lparr>pending := cs\<rparr>))"

text \<open>
  Modelled from the spec: \<^verbatim>\<open>Sfwrite\<close> of the stream library sends the bytes one at a time
  until one is refused and returns how many it sent (a "short write").
\<close>

fun Sfwrite :: "byte list \<Rightarrow> IOSTREAM \<Rightarrow> nat \<times> IOSTREAM" where
  "Sfwrite [] s = (0, s)"
| "Sfwrite (c # cs) s =
     (case Sputc c s of (r, s') \<Rightarrow>
        if r < 0 then (0, s')
        else (case Sfwrite cs s' of (n, s'') \<Rightarrow> (Suc n, s'')))"

text \<open>
  Modelled from the spec: \<^verbatim>\<open>Sfread\<close> of the stream library takes up to \<open>n\<close> bytes, one at
  a time until the input ends; the model returns the bytes, whose number is the count
  the C function returns (a "short read").
\<close>

fun Sfread :: "nat \<Rightarrow> IOSTREAM \<Rightarrow> byte list \<times> IOSTREAM" where
  "Sfread 0 s = ([], s)"
| "Sfread (Suc n) s =
     (case Sgetc s of (c, s') \<Rightarrow>
        if c = - 1 then ([], s')
        else (case Sfread n s' of (bs, s'') \<Rightarrow> (word_of_int c # bs, s'')))"

subsection \<open>32-bit integers\<close>

text \<open>
  \<^verbatim>\<open>write_int32\<close>, lines 143-156. The shift of the signed \<^verbatim>\<open>int\<close> is arithmetic; the mask
  and the store into an \<^verbatim>\<open>unsigned char\<close> keep the low eight bits.
\<close>

definition write_int32 :: "host \<Rightarrow> IOSTREAM \<Rightarrow> cint \<Rightarrow> term_t \<Rightarrow> (exception + unit) \<times> IOSTREAM" where
  "write_int32 h s i stream =
     (let b0 = (ucast (signed_drop_bit 24 i AND 0xff) :: byte);
          b1 = (ucast (signed_drop_bit 16 i AND 0xff) :: byte);
          b2 = (ucast (signed_drop_bit 8 i AND 0xff) :: byte);
          b3 = (ucast (i AND 0xff) :: byte)
      in case Sfwrite [b0, b1, b2, b3] s of (n, s') \<Rightarrow>
           if n \<noteq> 4 then (Inl (io_error h stream ''write'' (errno h)), s')
           else (Inr (), s'))"

text \<open>
  \<^verbatim>\<open>read_int32\<close>, lines 172-184. Each byte is promoted to \<^verbatim>\<open>int\<close> before it is shifted;
  the result is the \<^verbatim>\<open>int\<close> \<open>v\<close>.
\<close>

definition read_int32 :: "host \<Rightarrow> IOSTREAM \<Rightarrow> term_t \<Rightarrow> (exception + cint) \<times> IOSTREAM" where
  "read_int32 h s stream =
     (case Sfread 4 s of (b, s') \<Rightarrow>
        if length b \<noteq> 4 then (Inl (io_error h stream ''read'' (errno h)), s')
        else
          let v = push_bit 24 (ucast (b ! 0) :: cint) OR push_bit 16 (ucast (b ! 1))
                  OR push_bit 8 (ucast (b ! 2)) OR ucast (b ! 3)
          in (Inr v, s'))"

text \<open>
  \<^verbatim>\<open>pl_read_int32\<close>, lines 187-201: the \<^verbatim>\<open>int\<close> is passed to \<^verbatim>\<open>PL_unify_integer\<close>, whose
  parameter is an \<^verbatim>\<open>intptr_t\<close>; the conversion keeps the value, and the Prolog integer
  is the signed value of that \<^verbatim>\<open>intptr_t\<close>.
\<close>

definition pl_read_int32 :: "host \<Rightarrow> IOSTREAM \<Rightarrow> term_t \<Rightarrow> (exception + int) \<times> IOSTREAM" where
  "pl_read_int32 h s stream =
     (case read_int32 h s stream of
        (Inl e, s') \<Rightarrow> (Inl e, s')
      | (Inr v, s') \<Rightarrow> (Inr (sint (scast v :: intptr_t)), s'))"

text \<open>The bytes an operation appended to the stream, given the stream before and after.\<close>

definition emitted :: "IOSTREAM \<Rightarrow> IOSTREAM \<Rightarrow> byte list" where
  "emitted s s' = drop (length (written s)) (written s')"

subsection \<open>Characters on a UTF-8 stream\<close>

text \<open>
  \<^verbatim>\<open>Sputcode\<close> and \<^verbatim>\<open>Sgetcode\<close> transfer one character in the encoding of the stream.
  Only the UTF-8 mode is modelled, since serialize.c sets the encoding to \<^verbatim>\<open>ENC_UTF8\<close>
  before every call of the two functions.
\<close>

text \<open>
  Modelled from the spec: the continuation byte of a UTF-8 sequence, which carries the
  low six bits of \<open>x\<close> under the mark \<open>0x80\<close>.
\<close>

definition cont :: "int \<Rightarrow> byte" where
  "cont x = word_of_int (0x80 + x mod 64)"

text \<open>
  Modelled from the spec: the UTF-8 byte sequence of a code point below \<open>2 ^ 31\<close>, one to
  six bytes ("the stream's own encoding layer expands multi-byte code points as
  needed").
\<close>

definition utf8_put_char :: "int \<Rightarrow> byte list" where
  "utf8_put_char c =
     (if c < 0x80 then [word_of_int c]
      else if c < 0x800 then
        [word_of_int (0xC0 + c div 2 ^ 6), cont c]
      else if c < 0x10000 then
        [word_of_int (0xE0 + c div 2 ^ 12), cont (c div 2 ^ 6), cont c]
      else if c < 0x200000 then
        [word_of_int (0xF0 + c div 2 ^ 18), cont (c div 2 ^ 12), cont (c div 2 ^ 6), cont c]
      else if c < 0x4000000 then
        [word_of_int (0xF8 + c div 2 ^ 24), cont (c div 2 ^ 18), cont (c div 2 ^ 12),
         cont (c div 2 ^ 6), cont c]
      else
        [word_of_int (0xFC + c div 2 ^ 30), cont (c div 2 ^ 24), cont (c div 2 ^ 18),
         cont (c div 2 ^ 12), cont (c div 2 ^ 6), cont c])"

text \<open>
  Modelled from the spec: \<^verbatim>\<open>Sputcode\<close> of the stream library, in the UTF-8 mode, sends
  the bytes of the character one at a time and returns -1 as soon as one of them is
  refused; the bytes sent before stay written. On success it returns the code point.
\<close>

definition Sputcode :: "int \<Rightarrow> IOSTREAM \<Rightarrow> int \<times> IOSTREAM" where
  "Sputcode c s =
     (case Sfwrite (utf8_put_char c) s of (n, s') \<Rightarrow>
        if n \<noteq> length (utf8_put_char c) then (- 1, s') else (c, s'))"

text \<open>
  Modelled from the spec: the continuation bytes of a UTF-8 sequence are read one at a
  time, six bits from each; the result is -1 when the input ends inside the sequence.
\<close>

fun get_continuation :: "nat \<Rightarrow> int \<Rightarrow> IOSTREAM \<Rightarrow> int \<times> IOSTREAM" where
  "get_continuation 0 code s = (code, s)"
| "get_continuation (Suc n) code s =
     (case Sgetc s of (c2, s') \<Rightarrow>
        if c2 = - 1 then (- 1, s')
        else get_continuation n (code * 64 + c2 mod 64) s')"

text \<open>
  Modelled from the spec: \<^verbatim>\<open>Sgetcode\<close> of the stream library, in the UTF-8 mode, reads a
  lead byte and the continuation bytes it announces and returns the code point. It
  returns -1 ("the end-of-stream sentinel") when the input has ended; a byte that
  cannot start a sequence is returned as it is.
\<close>

definition Sgetcode :: "IOSTREAM \<Rightarrow> int \<times> IOSTREAM" where
  "Sgetcode s =
     (case Sgetc s of (c, s') \<Rightarrow>
        if c = - 1 then (- 1, s')
        else if c < 0x80 then (c, s')
        else if c < 0xC0 then (c, s')
        else if c < 0xE0 then get_continuation 1 (c mod 32) s'
        else if c < 0xF0 then get_continuation 2 (c mod 16) s'
        else if c < 0xF8 then get_continuation 3 (c mod 8) s'
        else if c < 0xFC then get_continuation 4 (c mod 4) s'
        else if c < 0xFE then get_continuation 5 (c mod 2) s'
        else (c, s'))"

subsection \<open>Atoms\<close>

text \<open>
  \<^verbatim>\<open>pl_write_atom\<close>, lines 249-277. \<^verbatim>\<open>PL_get_nchars\<close> has delivered the text as \<open>str\<close>, one
  \<^verbatim>\<open>char\<close> per character (it is called without a multi-byte representation flag, so
  a text with a character above 255 does not reach the body), and its length as a
  \<^verbatim>\<open>size_t\<close>; the call of \<^verbatim>\<open>write_int32\<close> converts that length to \<^verbatim>\<open>int\<close>. \<open>write_chars\<close> is the loop of lines 265-270, which
  passes each \<^verbatim>\<open>unsigned char\<close> to \<^verbatim>\<open>Sputcode\<close> and stops at the first failure.
\<close>

fun write_chars :: "byte list \<Rightarrow> IOSTREAM \<Rightarrow> bool \<times> IOSTREAM" where
  "write_chars [] s = (True, s)"
| "write_chars (q # qs) s =
     (case Sputcode (uint q) s of (r, s') \<Rightarrow>
        if r < 0 then (False, s') else write_chars qs s')"

definition pl_write_atom :: "host \<Rightarrow> IOSTREAM \<Rightarrow> term_t \<Rightarrow> byte list \<Rightarrow> (exception + unit) \<times> IOSTREAM" where
  "pl_write_atom h s stream str =
     (let len = (word_of_nat (length str) :: size_t);
          oenc = encoding s
      in case write_int32 h s (ucast len) stream of
           (Inl e, s1) \<Rightarrow> (Inl e, s1)
         | (Inr u, s1) \<Rightarrow>
             (case write_chars str (s1\<lparr>encoding := ENC_UTF8\<rparr>) of (ok, s2) \<Rightarrow>
                if \<not> ok then (Inl (io_error h stream ''write'' (errno h)), s2\<lparr>encoding := oenc\<rparr>)
                else (Inr (), s2\<lparr>encoding := oenc\<rparr>)))"

text \<open>
  \<^verbatim>\<open>pl_read_atom\<close>, lines 204-246. \<open>choose_buffer\<close> is the choice of lines 219-222: the
  comparison \<^verbatim>\<open>len < sizeof(buf)\<close> converts the \<^verbatim>\<open>int\<close> to \<^verbatim>\<open>size_t\<close>, and so does the
  call \<^verbatim>\<open>malloc(len)\<close>. \<open>read_chars\<close> is the loop of lines 225-235 for a given number
  of rounds; it stores each code point into one \<^verbatim>\<open>char\<close> and stops at the first
  negative result of \<^verbatim>\<open>Sgetcode\<close>.
\<close>

datatype buffer = Stack_buf | Heap_buf

definition choose_buffer :: "host \<Rightarrow> cint \<Rightarrow> buffer option" where
  "choose_buffer h len =
     (if (scast len :: size_t) < 1024 then Some Stack_buf
      else if malloc_ok h (scast len) then Some Heap_buf
      else None)"

fun read_chars :: "nat \<Rightarrow> IOSTREAM \<Rightarrow> byte list option \<times> IOSTREAM" where
  "read_chars 0 s = (Some [], s)"
| "read_chars (Suc n) s =
     (case Sgetcode s of (c, s') \<Rightarrow>
        if c < 0 then (None, s')
        else (case read_chars n s' of
                (None, s'') \<Rightarrow> (None, s'')
              | (Some cs, s'') \<Rightarrow> (Some (word_of_int c # cs), s'')))"

text \<open>
  The loop runs while the \<^verbatim>\<open>int\<close> \<open>i\<close> is below the \<^verbatim>\<open>int\<close> \<open>len\<close>, that is
  \<open>nat (sint len)\<close> times. The text is built from \<open>len\<close> characters of the buffer, with
  \<open>len\<close> converted to \<^verbatim>\<open>size_t\<close>: for a negative \<open>len\<close> whose allocation succeeded no
  character was stored and the text is taken from memory that was never written, which
  the model marks as \<open>Indeterminate\<close>.
\<close>

definition pl_read_atom :: "host \<Rightarrow> IOSTREAM \<Rightarrow> term_t \<Rightarrow> (exception + byte list) \<times> IOSTREAM" where
  "pl_read_atom h s stream =
     (let oenc = encoding s
      in case read_int32 h s stream of
           (Inl e, s1) \<Rightarrow> (Inl e, s1)
         | (Inr len, s1) \<Rightarrow>
             (case choose_buffer h len of
                None \<Rightarrow> (Inl (resource_error ''memory''), s1)
              | Some b \<Rightarrow>
                  (case read_chars (nat (sint len)) (s1\<lparr>encoding := ENC_UTF8\<rparr>) of
                     (None, s2) \<Rightarrow>
                       (Inl (io_error h stream ''read'' (errno h)), s2\<lparr>encoding := oenc\<rparr>)
                   | (Some cs, s2) \<Rightarrow>
                       (if sint len < 0 then Inl Indeterminate else Inr cs,
                        s2\<lparr>encoding := oenc\<rparr>))))"

subsection \<open>Floats\<close>

text \<open>
  A \<^verbatim>\<open>double\<close> is its 64-bit IEEE-754 pattern. \<open>double_bytes\<close> is the array \<open>cl\<close> that
  the code obtains by reading the object as \<^verbatim>\<open>unsigned char\<close>: the least significant
  byte first on a little-endian host, last on a big-endian one. \<open>bytes_double\<close> is the
  value of the object whose bytes are \<open>cl\<close>.
\<close>

definition le_bytes :: "64 word \<Rightarrow> byte list" where
  "le_bytes f =
     [ucast f, ucast (drop_bit 8 f), ucast (drop_bit 16 f), ucast (drop_bit 24 f),
      ucast (drop_bit 32 f), ucast (drop_bit 40 f), ucast (drop_bit 48 f),
      ucast (drop_bit 56 f)]"

definition le_word :: "byte list \<Rightarrow> 64 word" where
  "le_word bs = foldr (\<lambda>b w. ucast b OR push_bit 8 w) bs 0"

definition double_bytes :: "host \<Rightarrow> 64 word \<Rightarrow> byte list" where
  "double_bytes h f = (if WORDS_BIGENDIAN h then rev (le_bytes f) else le_bytes f)"

definition bytes_double :: "host \<Rightarrow> byte list \<Rightarrow> 64 word" where
  "bytes_double h cl = (if WORDS_BIGENDIAN h then le_word (rev cl) else le_word cl)"

text \<open>The table \<^verbatim>\<open>double_byte_order\<close>, lines 280-284.\<close>

definition double_byte_order :: "host \<Rightarrow> nat list" where
  "double_byte_order h =
     (if WORDS_BIGENDIAN h then [7, 6, 5, 4, 3, 2, 1, 0] else [0, 1, 2, 3, 4, 5, 6, 7])"

text \<open>
  \<^verbatim>\<open>pl_write_float\<close>, lines 287-306: the loop visits the entries of the table in order
  and sends the byte of \<open>cl\<close> at each.
\<close>

fun write_float_loop :: "nat list \<Rightarrow> byte list \<Rightarrow> IOSTREAM \<Rightarrow> bool \<times> IOSTREAM" where
  "write_float_loop [] cl s = (True, s)"
| "write_float_loop (k # ks) cl s =
     (case Sputc (cl ! k) s of (r, s') \<Rightarrow>
        if r < 0 then (False, s') else write_float_loop ks cl s')"

definition pl_write_float :: "host \<Rightarrow> IOSTREAM \<Rightarrow> term_t \<Rightarrow> 64 word \<Rightarrow> (exception + unit) \<times> IOSTREAM" where
  "pl_write_float h fd stream f =
     (case write_float_loop (double_byte_order h) (double_bytes h f) fd of (ok, fd') \<Rightarrow>
        if \<not> ok then (Inl (io_error h stream ''write'' (errno h)), fd')
        else (Inr (), fd'))"

text \<open>
  \<^verbatim>\<open>pl_read_float\<close>, lines 309-330: each byte read is stored into \<open>cl\<close> at the entry
  of the table. The eight cells of \<open>cl\<close> start as zeros here; all are overwritten
  before the value is taken.
\<close>

fun read_float_loop :: "nat list \<Rightarrow> byte list \<Rightarrow> IOSTREAM \<Rightarrow> byte list option \<times> IOSTREAM" where
  "read_float_loop [] cl s = (Some cl, s)"
| "read_float_loop (k # ks) cl s =
     (case Sgetc s of (c, s') \<Rightarrow>
        if c = - 1 then (None, s')
        else read_float_loop ks (cl[k := word_of_int c]) s')"

definition pl_read_float :: "host \<Rightarrow> IOSTREAM \<Rightarrow> term_t \<Rightarrow> (exception + 64 word) \<times> IOSTREAM" where
  "pl_read_float h fd stream =
     (case read_float_loop (double_byte_order h) (replicate 8 0) fd of
        (None, fd') \<Rightarrow> (Inl (io_error h stream ''read'' (errno h)), fd')
      | (Some cl, fd') \<Rightarrow> (Inr (bytes_double h cl), fd'))"

subsection \<open>Wire images\<close>

text \<open>
  Two abbreviations for stating the wire format: the four bytes of an \<^verbatim>\<open>int\<close>, most
  significant first, and the bytes that the characters of a text occupy on a UTF-8
  stream, one \<^verbatim>\<open>Sputcode\<close> sequence per \<^verbatim>\<open>unsigned char\<close>.
\<close>

definition be_bytes :: "cint \<Rightarrow> byte list" where
  "be_bytes i = [ucast (drop_bit 24 i), ucast (drop_bit 16 i), ucast (drop_bit 8 i), ucast i]"

definition utf8_text :: "byte list \<Rightarrow> byte list" where
  "utf8_text str = concat (map (\<lambda>q. utf8_put_char (uint q)) str)"

subsection \<open>A host and streams to evaluate on\<close>

text \<open>
  A little-endian host whose \<^verbatim>\<open>strerror\<close> knows \<^verbatim>\<open>EIO\<close> only and whose \<^verbatim>\<open>malloc\<close> serves
  up to 64 KiB, a sink that accepts \<open>n\<close> bytes, and a source that holds given bytes.
\<close>

definition host_le :: host where
  "host_le =
     \<lparr>strerror = (\<lambda>e. if e = 5 then Some ''Input/output error'' else None),
      errno = 5, malloc_ok = (\<lambda>n. n \<le> 0x10000), WORDS_BIGENDIAN = False\<rparr>"

definition sink :: "nat \<Rightarrow> IOSTREAM" where
  "sink n = \<lparr>encoding = ENC_ISO_LATIN_1, pending = [], written = [], room = n\<rparr>"

definition source :: "byte list \<Rightarrow> IOSTREAM" where
  "source bs = \<lparr>encoding = ENC_ISO_LATIN_1, pending = bs, written = [], room = 0\<rparr>"

section \<open>Properties\<close>

subsection \<open>Stream primitives in closed form\<close>

lemma uint_byte_not_eof [simp]: "uint (c :: byte) \<noteq> - 1"
proof
  assume "uint c = - 1"
  moreover have "0 \<le> uint c" by (rule uint_ge_0)
  ultimately show False by linarith
qed

lemma uint_byte_lt: "uint (a :: byte) < 256"
  using uint_lt2p [of a] by simp

lemma Sfwrite_eq:
  "Sfwrite bs s =
     (min (length bs) (room s),
      s\<lparr>written := written s @ take (room s) bs, room := room s - length bs\<rparr>)"
proof (induction bs arbitrary: s)
  case Nil
  show ?case by simp
next
  case (Cons c cs)
  show ?case
  proof (cases "room s")
    case 0
    then show ?thesis by (simp add: Sputc_def)
  next
    case (Suc k)
    then show ?thesis by (simp add: Sputc_def Cons.IH)
  qed
qed

lemma Sfread_eq:
  "Sfread n s = (take n (pending s), s\<lparr>pending := drop n (pending s)\<rparr>)"
proof (induction n arbitrary: s)
  case 0
  show ?case by simp
next
  case (Suc n)
  show ?case
  proof (cases "pending s")
    case Nil
    then show ?thesis by (simp add: Sgetc_def)
  next
    case (Cons c cs)
    then show ?thesis by (simp add: Sgetc_def Suc.IH)
  qed
qed

subsection \<open>The four bytes of an \<^verbatim>\<open>int\<close>\<close>

lemma ff_mask: "(0xff :: cint) = mask 8"
  by (simp add: mask_eq_exp_minus_1)

lemma byte_of_shift:
  "k \<le> 24 \<Longrightarrow> (ucast (signed_drop_bit k (i :: cint) AND 0xff) :: byte) = ucast (drop_bit k i)"
  unfolding ff_mask
  by (rule bit_word_eqI) (auto simp add: bit_simps)

lemma byte_of_sshift:
  "k \<le> 24 \<Longrightarrow> (ucast (signed_drop_bit k (i :: cint)) :: byte) = ucast (drop_bit k i)"
  by (rule bit_word_eqI) (auto simp add: bit_simps)

lemma byte_of_low: "(ucast ((i :: cint) AND 0xff) :: byte) = ucast i"
  unfolding ff_mask
  by (rule bit_word_eqI) (auto simp add: bit_simps)

lemma int32_join:
  fixes i :: cint
  shows "push_bit 24 (ucast (ucast (drop_bit 24 i) :: byte) :: cint)
         OR push_bit 16 (ucast (ucast (drop_bit 16 i) :: byte))
         OR push_bit 8 (ucast (ucast (drop_bit 8 i) :: byte))
         OR ucast (ucast i :: byte) = i"
proof (rule bit_word_eqI)
  fix n
  assume "n < LENGTH(32)"
  then have n: "n < 32" by simp
  consider "n < 8" | "8 \<le> n" "n < 16" | "16 \<le> n" "n < 24" | "24 \<le> n"
    by linarith
  then show "bit (push_bit 24 (ucast (ucast (drop_bit 24 i) :: byte) :: cint)
         OR push_bit 16 (ucast (ucast (drop_bit 16 i) :: byte))
         OR push_bit 8 (ucast (ucast (drop_bit 8 i) :: byte))
         OR ucast (ucast i :: byte)) n = bit i n"
    using n by cases (auto simp add: bit_simps)
qed

lemma be32_or_add:
  fixes a b c d :: byte
  shows "push_bit 24 (ucast a :: cint) OR push_bit 16 (ucast b) OR push_bit 8 (ucast c) OR ucast d
       = push_bit 24 (ucast a) + (push_bit 16 (ucast b) + (push_bit 8 (ucast c) + ucast d))"
proof -
  have 1: "push_bit 8 (ucast c :: cint) + ucast d = push_bit 8 (ucast c) OR ucast d"
    by (rule disjunctive_add) (auto simp add: bit_simps dest: bit_imp_le_length)
  have 2: "push_bit 16 (ucast b :: cint) + (push_bit 8 (ucast c) OR ucast d)
         = push_bit 16 (ucast b) OR (push_bit 8 (ucast c) OR ucast d)"
    by (rule disjunctive_add) (auto simp add: bit_simps dest: bit_imp_le_length)
  have 3: "push_bit 24 (ucast a :: cint) + (push_bit 16 (ucast b) OR (push_bit 8 (ucast c) OR ucast d))
         = push_bit 24 (ucast a) OR (push_bit 16 (ucast b) OR (push_bit 8 (ucast c) OR ucast d))"
    by (rule disjunctive_add) (auto simp add: bit_simps dest: bit_imp_le_length)
  show ?thesis by (simp only: 1 2 3)
qed

lemma be32_uint:
  fixes a b c d :: byte
  shows "uint (push_bit 24 (ucast a :: cint) OR push_bit 16 (ucast b) OR push_bit 8 (ucast c) OR ucast d)
       = uint a * 2 ^ 24 + uint b * 2 ^ 16 + uint c * 2 ^ 8 + uint d"
proof -
  let ?U = "uint a * 2 ^ 24 + uint b * 2 ^ 16 + uint c * 2 ^ 8 + uint d"
  have e: "push_bit 24 (ucast a :: cint) OR push_bit 16 (ucast b) OR push_bit 8 (ucast c) OR ucast d
        = word_of_int ?U"
    unfolding be32_or_add by (simp add: push_bit_eq_mult)
  have lo: "0 \<le> ?U" by simp
  have hi: "?U < 2 ^ 32"
    using uint_byte_lt [of a] uint_byte_lt [of b] uint_byte_lt [of c] uint_byte_lt [of d] by simp
  have "uint (word_of_int ?U :: cint) = take_bit LENGTH(32) ?U"
    by (rule uint_word_of_int_eq)
  also have "\<dots> = ?U"
    using lo hi by (simp add: take_bit_int_eq_self)
  finally show ?thesis
    by (simp only: e)
qed

lemma sint32_uint: "sint (v :: cint) = (if bit v 31 then uint v - 2 ^ 32 else uint v)"
proof -
  have "sint v = signed_take_bit 31 (uint v)"
    by (simp add: sint_uint)
  also have "\<dots> = take_bit 32 (uint v) - 2 ^ 32 * of_bool (bit (uint v) 31)"
    using signed_take_bit_eq_take_bit_minus [of 31 "uint v"] by simp
  also have "take_bit 32 (uint v) = uint v"
    using take_bit_length_eq [of v] by (simp add: take_bit_int_eq_self uint_lt2p [of v, simplified])
  also have "bit (uint v) 31 = bit v 31"
    by (simp add: bit_uint_iff)
  finally show ?thesis by simp
qed

lemma be32_sign:
  fixes a b c d :: byte
  shows "bit (push_bit 24 (ucast a :: cint) OR push_bit 16 (ucast b) OR push_bit 8 (ucast c) OR ucast d) 31
         = bit a 7"
  by (auto simp add: bit_simps dest: bit_imp_le_length)

lemma sint_intptr: "sint (scast (v :: cint) :: intptr_t) = sint v"
  by (rule sint_up_scast) (simp add: is_up)

lemma Suc4: "Suc (Suc (Suc (Suc 0))) = 4"
  by simp

lemma write_int32_eq:
  "write_int32 h s i stream =
     (if room s < 4 then Inl (io_error h stream ''write'' (errno h)) else Inr (),
      s\<lparr>written := written s
             @ take (room s) [ucast (drop_bit 24 i), ucast (drop_bit 16 i), ucast (drop_bit 8 i), ucast i],
        room := room s - 4\<rparr>)"
  by (simp add: write_int32_def Sfwrite_eq byte_of_shift byte_of_low byte_of_sshift min_def Suc4)

lemma read_int32_eq:
  "read_int32 h s stream =
     (case pending s of
        b0 # b1 # b2 # b3 # rest \<Rightarrow>
          (Inr (push_bit 24 (ucast b0) OR push_bit 16 (ucast b1) OR push_bit 8 (ucast b2) OR ucast b3),
           s\<lparr>pending := rest\<rparr>)
      | _ \<Rightarrow> (Inl (io_error h stream ''read'' (errno h)), s\<lparr>pending := []\<rparr>))"
  by (simp add: read_int32_def Sfread_eq split: list.splits)

lemma byte_ff: "(0xFF :: byte) = - 1"
  by simp

lemma ucast_mask_byte: "8 \<le> n \<Longrightarrow> n \<le> 32 \<Longrightarrow> (ucast (mask n :: cint) :: byte) = 0xFF"
  unfolding byte_ff by (rule bit_word_eqI) (auto simp add: bit_simps)

lemma ucast_m1_byte: "(ucast (- 1 :: cint) :: byte) = 0xFF"
  unfolding byte_ff by (rule bit_word_eqI) (auto simp add: bit_simps)

subsection \<open>Claims on 32-bit integers\<close>

text \<open>
  C4: on a stream that accepts four more bytes, \<^verbatim>\<open>write_int32\<close> succeeds and appends
  exactly four bytes, most significant first: bit \<open>k\<close> of the first byte is bit
  \<open>24 + k\<close> of the integer, of the second bit \<open>16 + k\<close>, of the third bit \<open>8 + k\<close>, of
  the fourth bit \<open>k\<close>. \<open>0x01020304\<close> goes out as 01 02 03 04 and \<open>-1\<close> as FF FF FF FF.
\<close>

theorem write_int32_big_endian:
  assumes "4 \<le> room s"
  shows "write_int32 h s i stream =
           (Inr (), s\<lparr>written := written s @ [ucast (drop_bit 24 i), ucast (drop_bit 16 i),
                                               ucast (drop_bit 8 i), ucast i],
                       room := room s - 4\<rparr>)
         \<and> (\<forall>k < 8. bit (ucast (drop_bit 24 i) :: byte) k = bit i (24 + k)
                   \<and> bit (ucast (drop_bit 16 i) :: byte) k = bit i (16 + k)
                   \<and> bit (ucast (drop_bit 8 i) :: byte) k = bit i (8 + k)
                   \<and> bit (ucast i :: byte) k = bit i k)
         \<and> emitted s (snd (write_int32 h s 0x01020304 stream)) = [0x01, 0x02, 0x03, 0x04]
         \<and> emitted s (snd (write_int32 h s (- 1) stream)) = [0xFF, 0xFF, 0xFF, 0xFF]"
proof -
  have "bit (ucast (drop_bit 24 i) :: byte) k = bit i (24 + k)
        \<and> bit (ucast (drop_bit 16 i) :: byte) k = bit i (16 + k)
        \<and> bit (ucast (drop_bit 8 i) :: byte) k = bit i (8 + k)
        \<and> bit (ucast i :: byte) k = bit i k" if "k < 8" for k
    using that by (simp add: bit_simps)
  then show ?thesis
    using assms by (simp add: write_int32_eq emitted_def ucast_mask_byte ucast_m1_byte)
qed

theorem write_int32_big_endian_witness:
  "4 \<le> room (sink 4)
   \<and> write_int32 host_le (sink 4) 0x01020304 7
       = (Inr (), \<lparr>encoding = ENC_ISO_LATIN_1, pending = [], written = [1, 2, 3, 4], room = 0\<rparr>)"
  using write_int32_big_endian [of "sink 4" host_le "0x01020304" 7]
  by (simp add: sink_def)

text \<open>
  C1: when \<^verbatim>\<open>write_int32\<close> has written the integer \<open>i\<close> without failure and a stream
  holds the bytes it produced (followed by anything), \<^verbatim>\<open>read_int32\<close> on that stream
  succeeds, returns \<open>i\<close> and leaves what followed.
\<close>

theorem int32_round_trip:
  assumes "fst (write_int32 h s i stream) = Inr ()"
    and "pending r = emitted s (snd (write_int32 h s i stream)) @ rest"
  shows "read_int32 h' r stream' = (Inr i, r\<lparr>pending := rest\<rparr>)"
proof -
  from assms(1) have room: "\<not> room s < 4"
    by (simp add: write_int32_eq split: if_splits)
  with assms(2) have "pending r =
      [ucast (drop_bit 24 i), ucast (drop_bit 16 i), ucast (drop_bit 8 i), ucast i] @ rest"
    by (simp add: write_int32_eq emitted_def)
  then show ?thesis
    by (simp add: read_int32_eq int32_join)
qed

theorem int32_round_trip_witness:
  "fst (write_int32 host_le (sink 4) (- 2) 7) = Inr ()
   \<and> read_int32 host_le (source ([0xFF, 0xFF, 0xFF, 0xFE] @ [9])) 7
       = (Inr (- 2), (source ([0xFF, 0xFF, 0xFF, 0xFE] @ [9]))\<lparr>pending := [9]\<rparr>)"
proof -
  have w: "fst (write_int32 host_le (sink 4) (- 2) 7) = Inr ()"
    by (simp add: write_int32_eq sink_def)
  have p: "pending (source ([0xFF, 0xFF, 0xFF, 0xFE] @ [9]))
           = emitted (sink 4) (snd (write_int32 host_le (sink 4) (- 2) 7)) @ [9]"
    by (simp add: write_int32_eq sink_def source_def emitted_def)
  show ?thesis
    using w int32_round_trip [OF w p, of host_le 7] by simp
qed

text \<open>
  C5: \<^verbatim>\<open>read_int32\<close> on four bytes \<open>b0 b1 b2 b3\<close> returns
  \<open>(b0<<24)|(b1<<16)|(b2<<8)|b3\<close> as a 32-bit \<^verbatim>\<open>int\<close>; its signed value is the unsigned
  combination of the bytes, less \<open>2 ^ 32\<close> when the top bit of \<open>b0\<close> is set, and is then
  negative. \<^verbatim>\<open>pl_read_int32\<close> hands the same signed value to Prolog through the wider
  \<^verbatim>\<open>intptr_t\<close>.
\<close>

theorem read_int32_sign_correct:
  assumes "pending r = b0 # b1 # b2 # b3 # rest"
  shows "let v = push_bit 24 (ucast b0 :: cint) OR push_bit 16 (ucast b1)
                 OR push_bit 8 (ucast b2) OR ucast b3;
             u = uint b0 * 2 ^ 24 + uint b1 * 2 ^ 16 + uint b2 * 2 ^ 8 + uint b3
         in read_int32 h r stream = (Inr v, r\<lparr>pending := rest\<rparr>)
            \<and> pl_read_int32 h r stream = (Inr (sint v), r\<lparr>pending := rest\<rparr>)
            \<and> sint v = (if bit b0 7 then u - 2 ^ 32 else u)
            \<and> (bit b0 7 \<longrightarrow> sint v < 0)"
proof -
  let ?v = "push_bit 24 (ucast b0 :: cint) OR push_bit 16 (ucast b1)
            OR push_bit 8 (ucast b2) OR ucast b3"
  let ?u = "uint b0 * 2 ^ 24 + uint b1 * 2 ^ 16 + uint b2 * 2 ^ 8 + uint b3"
  have rd: "read_int32 h r stream = (Inr ?v, r\<lparr>pending := rest\<rparr>)"
    using assms by (simp add: read_int32_eq)
  have pl: "pl_read_int32 h r stream = (Inr (sint ?v), r\<lparr>pending := rest\<rparr>)"
    by (simp only: pl_read_int32_def rd sint_intptr prod.case sum.case)
  have val: "sint ?v = (if bit b0 7 then ?u - 2 ^ 32 else ?u)"
    by (simp only: sint32_uint [of ?v] be32_sign be32_uint)
  have neg: "bit b0 7 \<longrightarrow> sint ?v < 0"
    using bit_last_iff [of ?v] by (simp add: be32_sign)
  show ?thesis
    unfolding Let_def using rd pl val neg by blast
qed

theorem read_int32_sign_correct_witness:
  "pending (source [0xFF, 0xFF, 0xFF, 0xFE, 9]) = 0xFF # 0xFF # 0xFF # 0xFE # [9]
   \<and> pl_read_int32 host_le (source [0xFF, 0xFF, 0xFF, 0xFE, 9]) 7
       = (Inr (- 2), (source [0xFF, 0xFF, 0xFF, 0xFE, 9])\<lparr>pending := [9]\<rparr>)"
proof -
  have p: "pending (source [0xFF, 0xFF, 0xFF, 0xFE, 9]) = 0xFF # 0xFF # 0xFF # 0xFE # [9]"
    by (simp add: source_def)
  show ?thesis
    using p read_int32_sign_correct [OF p, of host_le 7] by (simp add: Let_def)
qed

subsection \<open>Floats\<close>

lemma le_word_le_bytes: "le_word (le_bytes f) = f"
proof (rule bit_word_eqI)
  fix n
  assume "n < LENGTH(64)"
  then have n: "n < 64" by simp
  consider "n < 8" | "8 \<le> n" "n < 16" | "16 \<le> n" "n < 24" | "24 \<le> n" "n < 32"
    | "32 \<le> n" "n < 40" | "40 \<le> n" "n < 48" | "48 \<le> n" "n < 56" | "56 \<le> n"
    by linarith
  then show "bit (le_word (le_bytes f)) n = bit f n"
    using n by cases (auto simp add: le_word_def le_bytes_def bit_simps)
qed

lemma write_float_loop_eq:
  "write_float_loop ks cl s =
     (length ks \<le> room s,
      s\<lparr>written := written s @ take (room s) (map ((!) cl) ks), room := room s - length ks\<rparr>)"
proof (induction ks arbitrary: s)
  case Nil
  show ?case by simp
next
  case (Cons k ks)
  show ?case
  proof (cases "room s")
    case 0
    then show ?thesis by (simp add: Sputc_def)
  next
    case (Suc m)
    then show ?thesis by (simp add: Sputc_def Cons.IH)
  qed
qed

lemma wire_bytes:
  "map ((!) (double_bytes h f)) (double_byte_order h) = le_bytes f"
  by (simp add: double_bytes_def double_byte_order_def le_bytes_def)

lemma pl_write_float_eq:
  "pl_write_float h s stream f =
     (if 8 \<le> room s then Inr () else Inl (io_error h stream ''write'' (errno h)),
      s\<lparr>written := written s @ take (room s) (le_bytes f), room := room s - 8\<rparr>)"
proof -
  have "length (double_byte_order h) = 8"
    by (simp add: double_byte_order_def)
  then show ?thesis
    by (simp add: pl_write_float_def write_float_loop_eq wire_bytes)
qed

lemma zeros8: "replicate 8 (0 :: byte) = [0, 0, 0, 0, 0, 0, 0, 0]"
  by (simp add: eval_nat_numeral)

lemma read_float_loop_8:
  assumes "pending r = [b0, b1, b2, b3, b4, b5, b6, b7] @ rest"
  shows "read_float_loop (double_byte_order h) (replicate 8 0) r =
           (Some (if WORDS_BIGENDIAN h then [b7, b6, b5, b4, b3, b2, b1, b0]
                  else [b0, b1, b2, b3, b4, b5, b6, b7]),
            r\<lparr>pending := rest\<rparr>)"
  using assms by (simp add: double_byte_order_def zeros8 Sgetc_def eval_nat_numeral)


lemma pl_read_float_8:
  assumes "pending r = [b0, b1, b2, b3, b4, b5, b6, b7] @ rest"
  shows "pl_read_float h r stream
           = (Inr (le_word [b0, b1, b2, b3, b4, b5, b6, b7]), r\<lparr>pending := rest\<rparr>)"
  by (simp add: pl_read_float_def read_float_loop_8 [OF assms] bytes_double_def)

text \<open>
  C2: when \<^verbatim>\<open>pl_write_float\<close> has written the 64-bit pattern \<open>f\<close> without failure and a
  stream holds the eight bytes it produced, \<^verbatim>\<open>pl_read_float\<close> on the same host returns
  exactly \<open>f\<close>, whatever the pattern is (finite, zero, subnormal, infinite or NaN), and
  leaves what followed: the read stores through the same table the write loaded through.
\<close>

theorem float_round_trip:
  assumes "fst (pl_write_float h s stream f) = Inr ()"
    and "pending r = emitted s (snd (pl_write_float h s stream f)) @ rest"
  shows "pl_read_float h r stream' = (Inr f, r\<lparr>pending := rest\<rparr>)"
proof -
  from assms(1) have room: "8 \<le> room s"
    by (simp add: pl_write_float_eq split: if_splits)
  have len: "length (le_bytes f) = 8"
    by (simp add: le_bytes_def)
  from assms(2) room len have p: "pending r = le_bytes f @ rest"
    by (simp add: pl_write_float_eq emitted_def)
  have "pl_read_float h r stream' = (Inr (le_word (le_bytes f)), r\<lparr>pending := rest\<rparr>)"
    using p unfolding le_bytes_def by (rule pl_read_float_8)
  then show ?thesis
    by (simp only: le_word_le_bytes)
qed

theorem float_round_trip_witness:
  "fst (pl_write_float host_le (sink 8) 7 0x7FF8000000000001) = Inr ()
   \<and> pl_read_float host_le (source [0x01, 0, 0, 0, 0, 0, 0xF8, 0x7F, 9]) 7
       = (Inr 0x7FF8000000000001, (source [0x01, 0, 0, 0, 0, 0, 0xF8, 0x7F, 9])\<lparr>pending := [9]\<rparr>)"
proof -
  have w: "fst (pl_write_float host_le (sink 8) 7 0x7FF8000000000001) = Inr ()"
    by (simp add: pl_write_float_eq sink_def)
  have p: "pending (source [0x01, 0, 0, 0, 0, 0, 0xF8, 0x7F, 9])
           = emitted (sink 8) (snd (pl_write_float host_le (sink 8) 7 0x7FF8000000000001)) @ [9]"
    by (simp add: pl_write_float_eq sink_def source_def emitted_def le_bytes_def)
  show ?thesis
    using w float_round_trip [OF w p, of 7] by simp
qed


subsection \<open>UTF-8: decoding what was encoded\<close>

lemma uint_byte_of_int: "0 \<le> x \<Longrightarrow> x < 256 \<Longrightarrow> uint (word_of_int x :: byte) = x"
  by (simp add: uint_word_of_int_eq take_bit_int_eq_self)

lemma Sgetc_Cons: "pending r = b # bs \<Longrightarrow> Sgetc r = (uint b, r\<lparr>pending := bs\<rparr>)"
  by (simp add: Sgetc_def)

lemma uint_cont: "uint (cont x) = 0x80 + x mod 64"
  unfolding cont_def
  by (rule uint_byte_of_int) (use pos_mod_bound [of 64 x] pos_mod_sign [of 64 x] in simp_all)

lemma cont_low: "(0x80 + x mod 64) mod 64 = x mod (64 :: int)"
proof -
  have "(64 * 2 + x mod 64) mod 64 = x mod 64 mod (64 :: int)"
    by (rule mod_mult_self4)
  then show ?thesis by simp
qed

lemma get_continuation_Suc:
  assumes "pending r = cont x # bs"
  shows "get_continuation (Suc n) code r
          = get_continuation n (code * 64 + x mod 64) (r\<lparr>pending := bs\<rparr>)"
proof -
  have g: "Sgetc r = (0x80 + x mod 64, r\<lparr>pending := bs\<rparr>)"
    using assms by (simp add: Sgetc_Cons uint_cont)
  have ne: "0x80 + x mod 64 \<noteq> (- 1 :: int)"
    using pos_mod_sign [of 64 x] by linarith
  show ?thesis
    unfolding get_continuation.simps g prod.case cont_low using ne by (simp only: if_False)
qed

lemma get_continuation_bytes:
  "pending r = map cont xs @ rest \<Longrightarrow>
     get_continuation (length xs) code r
       = (foldl (\<lambda>a x. a * 64 + x mod 64) code xs, r\<lparr>pending := rest\<rparr>)"
proof (induction xs arbitrary: code r)
  case Nil
  then show ?case by simp
next
  case (Cons x xs)
  have p: "pending r = cont x # (map cont xs @ rest)"
    using Cons.prems by simp
  have "get_continuation (length (x # xs)) code r
        = get_continuation (length xs) (code * 64 + x mod 64) (r\<lparr>pending := map cont xs @ rest\<rparr>)"
    using get_continuation_Suc [OF p] by simp
  also have "\<dots> = (foldl (\<lambda>a x. a * 64 + x mod 64) (code * 64 + x mod 64) xs,
                   r\<lparr>pending := map cont xs @ rest, pending := rest\<rparr>)"
    by (rule Cons.IH) simp
  finally show ?case by simp
qed

lemma div_step: "c div (k * 64) * 64 + c div k mod 64 = c div (k :: int)"
proof -
  have "c div (k * 64) = c div k div 64"
    by (rule zdiv_zmult2_eq) simp
  then show ?thesis by simp
qed


lemma lead_mod: "0 \<le> q \<Longrightarrow> q < m \<Longrightarrow> (m * k + q) mod m = (q :: int)"
  by simp

lemma d1: "c div 64 * 64 + c mod 64 = (c :: int)"
  by simp

lemma d2: "c div 4096 * 64 + c div 64 mod 64 = c div (64 :: int)"
  using div_step [of c 64] by simp

lemma d3: "c div 262144 * 64 + c div 4096 mod 64 = c div (4096 :: int)"
  using div_step [of c 4096] by simp

lemma d4: "c div 16777216 * 64 + c div 262144 mod 64 = c div (262144 :: int)"
  using div_step [of c 262144] by simp

lemma d5: "c div 1073741824 * 64 + c div 16777216 mod 64 = c div (16777216 :: int)"
  using div_step [of c 16777216] by simp

lemma Sgetcode_lead:
  assumes "pending r = word_of_int l # bs" and "0xC0 \<le> l" and "l < 0xFE"
  shows "Sgetcode r =
     (if l < 0xE0 then get_continuation (Suc 0) (l mod 32) (r\<lparr>pending := bs\<rparr>)
      else if l < 0xF0 then get_continuation (Suc (Suc 0)) (l mod 16) (r\<lparr>pending := bs\<rparr>)
      else if l < 0xF8 then get_continuation (Suc (Suc (Suc 0))) (l mod 8) (r\<lparr>pending := bs\<rparr>)
      else if l < 0xFC then
        get_continuation (Suc (Suc (Suc (Suc 0)))) (l mod 4) (r\<lparr>pending := bs\<rparr>)
      else get_continuation (Suc (Suc (Suc (Suc (Suc 0))))) (l mod 2) (r\<lparr>pending := bs\<rparr>))"
proof -
  have "uint (word_of_int l :: byte) = l"
    using assms by (intro uint_byte_of_int) simp_all
  then have "Sgetc r = (l, r\<lparr>pending := bs\<rparr>)"
    using Sgetc_Cons [OF assms(1)] by simp
  then show ?thesis
    using assms(2,3) by (simp add: Sgetcode_def eval_nat_numeral del: get_continuation.simps)
qed

lemma Sgetcode_utf8_1:
  assumes "0 \<le> c" "c < 0x80" "pending r = utf8_put_char c @ rest"
  shows "Sgetcode r = (c, r\<lparr>pending := rest\<rparr>)"
proof -
  have "pending r = word_of_int c # rest"
    using assms by (simp add: utf8_put_char_def)
  moreover have "uint (word_of_int c :: byte) = c"
    using assms by (simp add: uint_byte_of_int)
  ultimately show ?thesis
    using assms by (simp add: Sgetcode_def Sgetc_Cons)
qed

lemma Sgetcode_utf8_2:
  assumes "0x80 \<le> c" "c < 0x800" "pending r = utf8_put_char c @ rest"
  shows "Sgetcode r = (c, r\<lparr>pending := rest\<rparr>)"
proof -
  let ?q = "c div 64"
  have q: "0 \<le> ?q" "?q < 32"
    using assms(1,2) by simp_all
  have p: "pending r = word_of_int (0xC0 + ?q) # map cont [c] @ rest"
    using assms by (simp add: utf8_put_char_def)
  have m: "(0xC0 + ?q) mod 32 = ?q"
    using lead_mod [OF q, of 6] by simp
  have "Sgetcode r = get_continuation (length [c]) ?q (r\<lparr>pending := map cont [c] @ rest\<rparr>)"
    using q Sgetcode_lead [OF p] by (simp add: m del: get_continuation.simps)
  also have "\<dots> = (foldl (\<lambda>a x. a * 64 + x mod 64) ?q [c], r\<lparr>pending := map cont [c] @ rest, pending := rest\<rparr>)"
    by (rule get_continuation_bytes) simp
  also have "foldl (\<lambda>a x. a * 64 + x mod 64) ?q [c] = c"
    by (simp add: d5 d4 d3 d2 d1)
  finally show ?thesis by simp
qed

lemma Sgetcode_utf8_3:
  assumes "0x800 \<le> c" "c < 0x10000" "pending r = utf8_put_char c @ rest"
  shows "Sgetcode r = (c, r\<lparr>pending := rest\<rparr>)"
proof -
  let ?q = "c div 4096"
  have q: "0 \<le> ?q" "?q < 16"
    using assms(1,2) by simp_all
  have p: "pending r = word_of_int (0xE0 + ?q) # map cont [c div 64, c] @ rest"
    using assms by (simp add: utf8_put_char_def)
  have m: "(0xE0 + ?q) mod 16 = ?q"
    using lead_mod [OF q, of 14] by simp
  have "Sgetcode r = get_continuation (length [c div 64, c]) ?q (r\<lparr>pending := map cont [c div 64, c] @ rest\<rparr>)"
    using q Sgetcode_lead [OF p] by (simp add: m del: get_continuation.simps)
  also have "\<dots> = (foldl (\<lambda>a x. a * 64 + x mod 64) ?q [c div 64, c], r\<lparr>pending := map cont [c div 64, c] @ rest, pending := rest\<rparr>)"
    by (rule get_continuation_bytes) simp
  also have "foldl (\<lambda>a x. a * 64 + x mod 64) ?q [c div 64, c] = c"
    by (simp add: d5 d4 d3 d2 d1)
  finally show ?thesis by simp
qed

lemma Sgetcode_utf8_4:
  assumes "0x10000 \<le> c" "c < 0x200000" "pending r = utf8_put_char c @ rest"
  shows "Sgetcode r = (c, r\<lparr>pending := rest\<rparr>)"
proof -
  let ?q = "c div 262144"
  have q: "0 \<le> ?q" "?q < 8"
    using assms(1,2) by simp_all
  have p: "pending r = word_of_int (0xF0 + ?q) # map cont [c div 4096, c div 64, c] @ rest"
    using assms by (simp add: utf8_put_char_def)
  have m: "(0xF0 + ?q) mod 8 = ?q"
    using lead_mod [OF q, of 30] by simp
  have "Sgetcode r = get_continuation (length [c div 4096, c div 64, c]) ?q (r\<lparr>pending := map cont [c div 4096, c div 64, c] @ rest\<rparr>)"
    using q Sgetcode_lead [OF p] by (simp add: m del: get_continuation.simps)
  also have "\<dots> = (foldl (\<lambda>a x. a * 64 + x mod 64) ?q [c div 4096, c div 64, c], r\<lparr>pending := map cont [c div 4096, c div 64, c] @ rest, pending := rest\<rparr>)"
    by (rule get_continuation_bytes) simp
  also have "foldl (\<lambda>a x. a * 64 + x mod 64) ?q [c div 4096, c div 64, c] = c"
    by (simp add: d5 d4 d3 d2 d1)
  finally show ?thesis by simp
qed

lemma Sgetcode_utf8_5:
  assumes "0x200000 \<le> c" "c < 0x4000000" "pending r = utf8_put_char c @ rest"
  shows "Sgetcode r = (c, r\<lparr>pending := rest\<rparr>)"
proof -
  let ?q = "c div 16777216"
  have q: "0 \<le> ?q" "?q < 4"
    using assms(1,2) by simp_all
  have p: "pending r = word_of_int (0xF8 + ?q) # map cont [c div 262144, c div 4096, c div 64, c] @ rest"
    using assms by (simp add: utf8_put_char_def)
  have m: "(0xF8 + ?q) mod 4 = ?q"
    using lead_mod [OF q, of 62] by simp
  have "Sgetcode r = get_continuation (length [c div 262144, c div 4096, c div 64, c]) ?q (r\<lparr>pending := map cont [c div 262144, c div 4096, c div 64, c] @ rest\<rparr>)"
    using q Sgetcode_lead [OF p] by (simp add: m del: get_continuation.simps)
  also have "\<dots> = (foldl (\<lambda>a x. a * 64 + x mod 64) ?q [c div 262144, c div 4096, c div 64, c], r\<lparr>pending := map cont [c div 262144, c div 4096, c div 64, c] @ rest, pending := rest\<rparr>)"
    by (rule get_continuation_bytes) simp
  also have "foldl (\<lambda>a x. a * 64 + x mod 64) ?q [c div 262144, c div 4096, c div 64, c] = c"
    by (simp add: d5 d4 d3 d2 d1)
  finally show ?thesis by simp
qed

lemma Sgetcode_utf8_6:
  assumes "0x4000000 \<le> c" "c < 0x80000000" "pending r = utf8_put_char c @ rest"
  shows "Sgetcode r = (c, r\<lparr>pending := rest\<rparr>)"
proof -
  let ?q = "c div 1073741824"
  have q: "0 \<le> ?q" "?q < 2"
    using assms(1,2) by simp_all
  have p: "pending r = word_of_int (0xFC + ?q) # map cont [c div 16777216, c div 262144, c div 4096, c div 64, c] @ rest"
    using assms by (simp add: utf8_put_char_def)
  have m: "(0xFC + ?q) mod 2 = ?q"
    using lead_mod [OF q, of 126] by simp
  have "Sgetcode r = get_continuation (length [c div 16777216, c div 262144, c div 4096, c div 64, c]) ?q (r\<lparr>pending := map cont [c div 16777216, c div 262144, c div 4096, c div 64, c] @ rest\<rparr>)"
    using q Sgetcode_lead [OF p] by (simp add: m del: get_continuation.simps)
  also have "\<dots> = (foldl (\<lambda>a x. a * 64 + x mod 64) ?q [c div 16777216, c div 262144, c div 4096, c div 64, c], r\<lparr>pending := map cont [c div 16777216, c div 262144, c div 4096, c div 64, c] @ rest, pending := rest\<rparr>)"
    by (rule get_continuation_bytes) simp
  also have "foldl (\<lambda>a x. a * 64 + x mod 64) ?q [c div 16777216, c div 262144, c div 4096, c div 64, c] = c"
    by (simp add: d5 d4 d3 d2 d1)
  finally show ?thesis by simp
qed

lemma Sgetcode_utf8:
  assumes "0 \<le> c" "c < 0x80000000" "pending r = utf8_put_char c @ rest"
  shows "Sgetcode r = (c, r\<lparr>pending := rest\<rparr>)"
proof -
  consider "c < 0x80" | "0x80 \<le> c" "c < 0x800" | "0x800 \<le> c" "c < 0x10000"
    | "0x10000 \<le> c" "c < 0x200000" | "0x200000 \<le> c" "c < 0x4000000" | "0x4000000 \<le> c"
    by linarith
  then show ?thesis
  proof cases
    case 1
    with assms show ?thesis by (intro Sgetcode_utf8_1)
  next
    case 2
    with assms show ?thesis by (intro Sgetcode_utf8_2)
  next
    case 3
    with assms show ?thesis by (intro Sgetcode_utf8_3)
  next
    case 4
    with assms show ?thesis by (intro Sgetcode_utf8_4)
  next
    case 5
    with assms show ?thesis by (intro Sgetcode_utf8_5)
  next
    case 6
    with assms show ?thesis by (intro Sgetcode_utf8_6)
  qed
qed


subsection \<open>Atoms in closed form\<close>

lemma Sputcode_eq:
  "Sputcode c s =
     (if length (utf8_put_char c) \<le> room s then c else - 1,
      s\<lparr>written := written s @ take (room s) (utf8_put_char c),
        room := room s - length (utf8_put_char c)\<rparr>)"
  by (simp add: Sputcode_def Sfwrite_eq min_def)

lemma write_chars_eq:
  "write_chars str s =
     (length (utf8_text str) \<le> room s,
      s\<lparr>written := written s @ take (room s) (utf8_text str),
        room := room s - length (utf8_text str)\<rparr>)"
proof (induction str arbitrary: s)
  case Nil
  show ?case by (simp add: utf8_text_def)
next
  case (Cons q qs)
  have t: "utf8_text (q # qs) = utf8_put_char (uint q) @ utf8_text qs"
    by (simp add: utf8_text_def)
  have nn: "\<not> uint q < 0"
    by simp
  show ?case
  proof (cases "length (utf8_put_char (uint q)) \<le> room s")
    case True
    then show ?thesis
      using nn by (simp add: Sputcode_eq Cons.IH t) arith
  next
    case False
    then show ?thesis
      by (simp add: Sputcode_eq t)
  qed
qed

lemma length_be_bytes [simp]: "length (be_bytes i) = 4"
  by (simp add: be_bytes_def)

lemma write_int32_be:
  "write_int32 h s i stream =
     (if room s < 4 then Inl (io_error h stream ''write'' (errno h)) else Inr (),
      s\<lparr>written := written s @ take (room s) (be_bytes i), room := room s - 4\<rparr>)"
  by (simp add: write_int32_eq be_bytes_def)

lemma pl_write_atom_eq:
  "pl_write_atom h s stream str =
     (if room s < 4 + length (utf8_text str) then Inl (io_error h stream ''write'' (errno h))
      else Inr (),
      s\<lparr>written := written s
           @ take (room s) (be_bytes (ucast (word_of_nat (length str) :: size_t)) @ utf8_text str),
        room := room s - (4 + length (utf8_text str))\<rparr>)"
proof (cases "room s < 4")
  case True
  then show ?thesis
    by (simp add: pl_write_atom_def write_int32_be Let_def)
next
  case False
  then show ?thesis
    by (simp add: pl_write_atom_def write_int32_be write_chars_eq Let_def) arith
qed

lemma count_narrow: "(ucast (word_of_nat n :: size_t) :: cint) = word_of_nat n"
  by (rule bit_word_eqI) (auto simp add: bit_simps)

lemma count_sint: "n < 2 ^ 31 \<Longrightarrow> sint (word_of_nat n :: cint) = int n"
proof -
  assume "n < 2 ^ 31"
  then have "int n < 2 ^ 31"
    by (metis of_nat_less_iff of_nat_numeral of_nat_power)
  then show ?thesis
    by (simp add: signed_of_nat signed_take_bit_int_eq_self)
qed

lemma count_widen: "n < 2 ^ 31 \<Longrightarrow> (scast (word_of_nat n :: cint) :: size_t) = word_of_nat n"
  by (simp add: scast_eq count_sint)

lemma count_small: "n < 2 ^ 31 \<Longrightarrow> ((word_of_nat n :: size_t) < 1024) = (n < 1024)"
  by (simp add: word_less_nat_alt unat_of_nat)

lemma read_int32_be_bytes:
  "pending r = be_bytes i @ rest \<Longrightarrow> read_int32 h r stream = (Inr i, r\<lparr>pending := rest\<rparr>)"
  by (simp add: read_int32_eq be_bytes_def int32_join)

lemma read_chars_utf8:
  "\<forall>c \<in> set cs. 0 \<le> c \<and> c < 0x80000000 \<Longrightarrow>
   pending r = concat (map utf8_put_char cs) @ rest \<Longrightarrow>
   read_chars (length cs) r = (Some (map word_of_int cs), r\<lparr>pending := rest\<rparr>)"
proof (induction cs arbitrary: r)
  case Nil
  then show ?case by simp
next
  case (Cons c cs)
  have c: "0 \<le> c" "c < 0x80000000"
    using Cons.prems(1) by simp_all
  have p: "pending r = utf8_put_char c @ (concat (map utf8_put_char cs) @ rest)"
    using Cons.prems(2) by simp
  have g: "Sgetcode r = (c, r\<lparr>pending := concat (map utf8_put_char cs) @ rest\<rparr>)"
    using c p by (rule Sgetcode_utf8)
  have "read_chars (length cs) (r\<lparr>pending := concat (map utf8_put_char cs) @ rest\<rparr>)
        = (Some (map word_of_int cs),
           r\<lparr>pending := concat (map utf8_put_char cs) @ rest, pending := rest\<rparr>)"
    using Cons.prems(1) by (intro Cons.IH) simp_all
  then show ?case
    using c by (simp add: g)
qed

lemma pl_read_atom_utf8:
  assumes cs: "\<forall>c \<in> set cs. 0 \<le> c \<and> c < 0x80000000"
    and len: "length cs < 2 ^ 31"
    and mem: "1024 \<le> length cs \<longrightarrow> malloc_ok h (word_of_nat (length cs))"
    and p: "pending r = be_bytes (word_of_nat (length cs)) @ concat (map utf8_put_char cs) @ rest"
  shows "pl_read_atom h r stream = (Inr (map word_of_int cs), r\<lparr>pending := rest\<rparr>)"
proof -
  let ?n = "word_of_nat (length cs) :: cint"
  let ?r1 = "r\<lparr>pending := concat (map utf8_put_char cs) @ rest\<rparr>"
  have rd: "read_int32 h r stream = (Inr ?n, ?r1)"
    using p by (rule read_int32_be_bytes)
  have buf: "choose_buffer h ?n \<noteq> None"
    using len mem by (auto simp add: choose_buffer_def count_widen count_small)
  have rounds: "nat (sint ?n) = length cs" and pos: "\<not> sint ?n < 0"
    using len by (simp_all add: count_sint)
  have ch: "read_chars (length cs) (?r1\<lparr>encoding := ENC_UTF8\<rparr>)
            = (Some (map word_of_int cs), ?r1\<lparr>encoding := ENC_UTF8, pending := rest\<rparr>)"
    using cs by (rule read_chars_utf8) simp
  show ?thesis
    using buf pos by (auto simp add: pl_read_atom_def rd rounds ch)
qed


lemma text_codes: "\<forall>c \<in> set (map uint (str :: byte list)). 0 \<le> c \<and> c < 0x80000000"
proof -
  have "uint q < 0x80000000" for q :: byte
    by (rule order_less_trans [OF uint_byte_lt]) simp
  then show ?thesis by simp
qed

lemma utf8_text_codes: "utf8_text str = concat (map utf8_put_char (map uint str))"
  by (simp add: utf8_text_def comp_def)

lemma text_of_codes: "map word_of_int (map uint (str :: byte list)) = str"
  by (simp add: comp_def)

lemma pl_read_atom_text:
  assumes len: "length str < 2 ^ 31"
    and mem: "1024 \<le> length str \<longrightarrow> malloc_ok h (word_of_nat (length str))"
    and p: "pending r = be_bytes (word_of_nat (length str)) @ utf8_text str @ rest"
  shows "pl_read_atom h r stream = (Inr str, r\<lparr>pending := rest\<rparr>)"
proof -
  have "pl_read_atom h r stream
        = (Inr (map word_of_int (map uint str)), r\<lparr>pending := rest\<rparr>)"
    using text_codes len mem p
    by (intro pl_read_atom_utf8) (simp_all add: utf8_text_codes)
  then show ?thesis
    by (simp only: text_of_codes)
qed

lemma pl_write_atom_emitted:
  assumes "fst (pl_write_atom h s stream str) = Inr ()"
  shows "emitted s (snd (pl_write_atom h s stream str))
         = be_bytes (word_of_nat (length str)) @ utf8_text str"
proof -
  from assms have "\<not> room s < 4 + length (utf8_text str)"
    by (simp add: pl_write_atom_eq split: if_splits)
  then show ?thesis
    by (simp add: pl_write_atom_eq emitted_def count_narrow)
qed

lemma utf8_text_ascii: "uint b < 0x80 \<Longrightarrow> utf8_text (replicate n b) = replicate n b"
  by (induction n) (simp_all add: utf8_text_def utf8_put_char_def)

lemma length_utf8_text_replicate:
  "length (utf8_text (replicate n b)) = n * length (utf8_put_char (uint b))"
  by (induction n) (simp_all add: utf8_text_def)

lemma read_int32_encoding: "encoding (snd (read_int32 h s stream)) = encoding s"
  by (simp add: read_int32_def Sfread_eq Let_def)

subsection \<open>Claims on atoms: round trip and encoding mode\<close>

text \<open>
  C3, as the code has it: for every text of fewer than \<open>2 ^ 31\<close> characters (each an
  \<^verbatim>\<open>unsigned char\<close>, that is a code point up to 255), when \<^verbatim>\<open>pl_write_atom\<close> has
  written it without failure and, for 1024 characters or more, the allocation of the
  reader succeeds, \<^verbatim>\<open>pl_read_atom\<close> on the bytes produced returns the same text and
  leaves what followed. The lengths 0, 1, 1023, 1024 and 1025 are all covered.
\<close>

theorem atom_round_trip:
  assumes "length str < 2 ^ 31"
    and "fst (pl_write_atom h s stream str) = Inr ()"
    and "pending r = emitted s (snd (pl_write_atom h s stream str)) @ rest"
    and "1024 \<le> length str \<longrightarrow> malloc_ok h' (word_of_nat (length str))"
  shows "pl_read_atom h' r stream' = (Inr str, r\<lparr>pending := rest\<rparr>)"
  using assms by (intro pl_read_atom_text) (simp_all add: pl_write_atom_emitted)

theorem atom_round_trip_witness:
  "length (replicate 1025 (0xE9 :: byte)) < 2 ^ 31
   \<and> fst (pl_write_atom host_le (sink 2054) 7 (replicate 1025 0xE9)) = Inr ()
   \<and> malloc_ok host_le (word_of_nat (length (replicate 1025 (0xE9 :: byte))))
   \<and> pl_read_atom host_le
        (source (emitted (sink 2054) (snd (pl_write_atom host_le (sink 2054) 7 (replicate 1025 0xE9)))
                 @ [9])) 7
      = (Inr (replicate 1025 0xE9),
         (source (emitted (sink 2054) (snd (pl_write_atom host_le (sink 2054) 7 (replicate 1025 0xE9)))
                  @ [9]))\<lparr>pending := [9]\<rparr>)"
proof -
  have l: "length (replicate 1025 (0xE9 :: byte)) < 2 ^ 31"
    by simp
  have w: "fst (pl_write_atom host_le (sink 2054) 7 (replicate 1025 0xE9)) = Inr ()"
    by (simp add: pl_write_atom_eq length_utf8_text_replicate utf8_put_char_def sink_def)
  have p: "pending (source (emitted (sink 2054)
                      (snd (pl_write_atom host_le (sink 2054) 7 (replicate 1025 0xE9))) @ [9]))
           = emitted (sink 2054) (snd (pl_write_atom host_le (sink 2054) 7 (replicate 1025 0xE9))) @ [9]"
    by (simp add: source_def)
  have a: "malloc_ok host_le (word_of_nat (length (replicate 1025 (0xE9 :: byte))))"
    by (simp add: host_le_def)
  then have m: "1024 \<le> length (replicate 1025 (0xE9 :: byte))
           \<longrightarrow> malloc_ok host_le (word_of_nat (length (replicate 1025 (0xE9 :: byte))))"
    by (rule impI)
  show ?thesis
    using l w a atom_round_trip [OF l w p m, of 7] by blast
qed

text \<open>
  C3 as stated, for every text, fails: the length is a \<^verbatim>\<open>size_t\<close> that the call of
  \<^verbatim>\<open>write_int32\<close> converts to \<^verbatim>\<open>int\<close>. A text of \<open>2 ^ 32\<close> letters \<open>A\<close> is written
  without failure behind the length prefix 00 00 00 00, and reading those bytes back
  succeeds with the empty text.
\<close>

theorem atom_round_trip_counterexample:
  "fst (pl_write_atom host_le (sink (2 ^ 32 + 4)) 7 (replicate (2 ^ 32) 0x41)) = Inr ()
   \<and> fst (pl_read_atom host_le
           (source (emitted (sink (2 ^ 32 + 4))
                      (snd (pl_write_atom host_le (sink (2 ^ 32 + 4)) 7 (replicate (2 ^ 32) 0x41)))))
           7) = Inr []
   \<and> replicate (2 ^ 32) (0x41 :: byte) \<noteq> []"
proof -
  have p32: "(2 :: nat) ^ 32 = 4294967296"
    by simp
  have t: "utf8_text (replicate 4294967296 (0x41 :: byte)) = replicate 4294967296 0x41"
    by (rule utf8_text_ascii) simp
  have w: "fst (pl_write_atom host_le (sink (4294967296 + 4)) 7 (replicate 4294967296 0x41)) = Inr ()"
    by (simp add: pl_write_atom_eq t sink_def)
  have n: "(word_of_nat (length (replicate 4294967296 (0x41 :: byte))) :: cint) = 0"
    by simp
  have e: "emitted (sink (4294967296 + 4))
             (snd (pl_write_atom host_le (sink (4294967296 + 4)) 7 (replicate 4294967296 0x41)))
           = be_bytes 0 @ replicate 4294967296 0x41"
    by (simp only: pl_write_atom_emitted [OF w] n t)
  have r: "fst (pl_read_atom host_le (source (be_bytes 0 @ replicate 4294967296 0x41)) 7) = Inr []"
    using pl_read_atom_utf8 [of "[]" host_le "source (be_bytes 0 @ replicate 4294967296 0x41)"
        "replicate 4294967296 0x41" 7]
    by (simp add: source_def)
  have ne: "replicate 4294967296 (0x41 :: byte) \<noteq> []"
    by simp
  show ?thesis
    unfolding p32 using w ne by (simp only: e r) simp
qed

text \<open>
  C6: after \<^verbatim>\<open>pl_write_atom\<close> and after \<^verbatim>\<open>pl_read_atom\<close> the encoding field of the stream
  is what it was before the call, whatever the arguments, the stream and the host:
  this is every exit (success, failure of the length prefix, failure at a character,
  failed allocation).
\<close>

theorem atom_encoding_restored:
  "encoding (snd (pl_write_atom h s stream str)) = encoding s
   \<and> encoding (snd (pl_read_atom h s stream)) = encoding s"
proof
  show "encoding (snd (pl_write_atom h s stream str)) = encoding s"
    by (simp add: pl_write_atom_eq)
next
  obtain x s1 where rd: "read_int32 h s stream = (x, s1)"
    by (cases "read_int32 h s stream")
  have e1: "encoding s1 = encoding s"
    using read_int32_encoding [of h s stream] by (simp add: rd)
  show "encoding (snd (pl_read_atom h s stream)) = encoding s"
  proof (cases x)
    case (Inl e)
    then show ?thesis
      by (simp add: pl_read_atom_def rd e1 Let_def)
  next
    case (Inr len)
    obtain y s2 where ch: "read_chars (nat (sint len)) (s1\<lparr>encoding := ENC_UTF8\<rparr>) = (y, s2)"
      by (cases "read_chars (nat (sint len)) (s1\<lparr>encoding := ENC_UTF8\<rparr>)")
    show ?thesis
      using Inr by (simp add: pl_read_atom_def rd e1 ch Let_def split: option.splits)
  qed
qed


subsection \<open>Claim on the bytes consumed\<close>

lemma write_int32_emitted:
  "fst (write_int32 h s i stream) = Inr () \<Longrightarrow>
     emitted s (snd (write_int32 h s i stream)) = be_bytes i"
  by (simp add: write_int32_be emitted_def split: if_splits)

lemma pl_write_float_emitted:
  "fst (pl_write_float h s stream f) = Inr () \<Longrightarrow>
     emitted s (snd (pl_write_float h s stream f)) = le_bytes f"
  by (simp add: pl_write_float_eq emitted_def le_bytes_def split: if_splits)

lemma pl_read_float_le_bytes:
  "pending r = le_bytes f @ rest \<Longrightarrow>
     pl_read_float h r stream = (Inr f, r\<lparr>pending := rest\<rparr>)"
proof -
  assume "pending r = le_bytes f @ rest"
  then have "pl_read_float h r stream = (Inr (le_word (le_bytes f)), r\<lparr>pending := rest\<rparr>)"
    unfolding le_bytes_def by (rule pl_read_float_8)
  then show ?thesis
    by (simp only: le_word_le_bytes)
qed

text \<open>
  C7, as the code has it: a decode consumes exactly the bytes the matching encode
  produced, when the encode succeeded. These are 4 bytes for an integer, 8 for a float,
  and for a text of fewer than \<open>2 ^ 31\<close> characters the 4 bytes of the count followed
  by the UTF-8 bytes of the characters and nothing else (the decode of a text of 1024
  characters or more needs its allocation to succeed).
\<close>

theorem decode_consumes_encoded:
  "(fst (write_int32 h s i stream) = Inr () \<longrightarrow>
      length (emitted s (snd (write_int32 h s i stream))) = 4
      \<and> (\<forall>(r :: IOSTREAM) rest. pending r = emitted s (snd (write_int32 h s i stream)) @ rest
            \<longrightarrow> pending (snd (read_int32 h' r stream')) = rest))
   \<and> (fst (pl_write_float h s stream f) = Inr () \<longrightarrow>
      length (emitted s (snd (pl_write_float h s stream f))) = 8
      \<and> (\<forall>(r :: IOSTREAM) rest. pending r = emitted s (snd (pl_write_float h s stream f)) @ rest
            \<longrightarrow> pending (snd (pl_read_float h' r stream')) = rest))
   \<and> (length str < 2 ^ 31 \<and> fst (pl_write_atom h s stream str) = Inr () \<longrightarrow>
      emitted s (snd (pl_write_atom h s stream str))
        = be_bytes (word_of_nat (length str)) @ utf8_text str
      \<and> length (emitted s (snd (pl_write_atom h s stream str))) = 4 + length (utf8_text str)
      \<and> (\<forall>(r :: IOSTREAM) rest. pending r = emitted s (snd (pl_write_atom h s stream str)) @ rest
                    \<and> (1024 \<le> length str \<longrightarrow> malloc_ok h' (word_of_nat (length str)))
            \<longrightarrow> pending (snd (pl_read_atom h' r stream')) = rest))"
proof (intro conjI impI allI)
  assume w: "fst (write_int32 h s i stream) = Inr ()"
  show "length (emitted s (snd (write_int32 h s i stream))) = 4"
    by (simp add: write_int32_emitted [OF w])
  fix r :: IOSTREAM and rest
  assume "pending r = emitted s (snd (write_int32 h s i stream)) @ rest"
  then have "pending r = be_bytes i @ rest"
    by (simp only: write_int32_emitted [OF w])
  then show "pending (snd (read_int32 h' r stream')) = rest"
    by (simp add: read_int32_be_bytes)
next
  assume w: "fst (pl_write_float h s stream f) = Inr ()"
  show "length (emitted s (snd (pl_write_float h s stream f))) = 8"
    by (simp add: pl_write_float_emitted [OF w] le_bytes_def)
  fix r :: IOSTREAM and rest
  assume "pending r = emitted s (snd (pl_write_float h s stream f)) @ rest"
  then have "pending r = le_bytes f @ rest"
    by (simp only: pl_write_float_emitted [OF w])
  then show "pending (snd (pl_read_float h' r stream')) = rest"
    by (simp add: pl_read_float_le_bytes)
next
  assume a: "length str < 2 ^ 31 \<and> fst (pl_write_atom h s stream str) = Inr ()"
  then have w: "fst (pl_write_atom h s stream str) = Inr ()" and l: "length str < 2 ^ 31"
    by simp_all
  show e: "emitted s (snd (pl_write_atom h s stream str))
        = be_bytes (word_of_nat (length str)) @ utf8_text str"
    by (rule pl_write_atom_emitted [OF w])
  show "length (emitted s (snd (pl_write_atom h s stream str))) = 4 + length (utf8_text str)"
    by (simp add: e)
  fix r :: IOSTREAM and rest
  assume "pending r = emitted s (snd (pl_write_atom h s stream str)) @ rest
          \<and> (1024 \<le> length str \<longrightarrow> malloc_ok h' (word_of_nat (length str)))"
  then have p: "pending r = be_bytes (word_of_nat (length str)) @ utf8_text str @ rest"
    and m: "1024 \<le> length str \<longrightarrow> malloc_ok h' (word_of_nat (length str))"
    by (simp_all add: e)
  show "pending (snd (pl_read_atom h' r stream')) = rest"
    by (simp add: pl_read_atom_text [OF l m p])
qed

theorem decode_consumes_encoded_witness:
  "fst (write_int32 host_le (sink 100) 0x01020304 7) = Inr ()
   \<and> fst (pl_write_float host_le (sink 100) 7 0x3FF0000000000000) = Inr ()
   \<and> length [0x41, 0xE9 :: byte] < 2 ^ 31
   \<and> fst (pl_write_atom host_le (sink 100) 7 [0x41, 0xE9]) = Inr ()
   \<and> malloc_ok host_le (word_of_nat (length [0x41, 0xE9 :: byte]))
   \<and> pending (snd (read_int32 host_le (source ([1, 2, 3, 4] @ [9])) 7)) = [9]
   \<and> pending (snd (pl_read_float host_le (source ([0, 0, 0, 0, 0, 0, 0xF0, 0x3F] @ [9])) 7)) = [9]
   \<and> pending (snd (pl_read_atom host_le (source ([0, 0, 0, 2, 0x41, 0xC3, 0xA9] @ [9])) 7)) = [9]"
proof -
  note T = decode_consumes_encoded [where h = host_le and s = "sink 100" and i = "0x01020304"
      and stream = 7 and f = "0x3FF0000000000000" and str = "[0x41, 0xE9]" and h' = host_le
      and stream' = 7]
  have w1: "fst (write_int32 host_le (sink 100) 0x01020304 7) = Inr ()"
    by (simp add: write_int32_be sink_def)
  have w2: "fst (pl_write_float host_le (sink 100) 7 0x3FF0000000000000) = Inr ()"
    by (simp add: pl_write_float_eq sink_def)
  have l3: "length [0x41, 0xE9 :: byte] < 2 ^ 31"
    by simp
  have w3: "fst (pl_write_atom host_le (sink 100) 7 [0x41, 0xE9]) = Inr ()"
    by (simp add: pl_write_atom_eq sink_def utf8_text_def utf8_put_char_def)
  have m3: "malloc_ok host_le (word_of_nat (length [0x41, 0xE9 :: byte]))"
    by (simp add: host_le_def)
  have e1: "emitted (sink 100) (snd (write_int32 host_le (sink 100) 0x01020304 7)) = [1, 2, 3, 4]"
    by (simp add: write_int32_emitted [OF w1] be_bytes_def)
  have e2: "emitted (sink 100) (snd (pl_write_float host_le (sink 100) 7 0x3FF0000000000000))
            = [0, 0, 0, 0, 0, 0, 0xF0, 0x3F]"
    by (simp add: pl_write_float_emitted [OF w2] le_bytes_def)
  have e3: "emitted (sink 100) (snd (pl_write_atom host_le (sink 100) 7 [0x41, 0xE9]))
            = [0, 0, 0, 2, 0x41, 0xC3, 0xA9]"
    by (simp add: pl_write_atom_emitted [OF w3] be_bytes_def utf8_text_def utf8_put_char_def cont_def)
  have r1: "pending (snd (read_int32 host_le (source ([1, 2, 3, 4] @ [9])) 7)) = [9]"
    using T w1 by (simp add: e1 source_def)
  have r2: "pending (snd (pl_read_float host_le (source ([0, 0, 0, 0, 0, 0, 0xF0, 0x3F] @ [9])) 7)) = [9]"
    using T w2 by (simp add: e2 source_def)
  have r3: "pending (snd (pl_read_atom host_le (source ([0, 0, 0, 2, 0x41, 0xC3, 0xA9] @ [9])) 7)) = [9]"
    using T w3 l3 m3 by (simp add: e3 source_def)
  show ?thesis
    using w1 w2 l3 w3 m3 r1 r2 r3 by blast
qed

text \<open>
  C7 as stated, for every value the codec writes, fails: a text of \<open>2 ^ 32 + 1\<close>
  letters \<open>A\<close> is written without failure as \<open>2 ^ 32 + 5\<close> bytes whose count field says
  1; \<^verbatim>\<open>pl_read_atom\<close> succeeds on them with a text of one letter and leaves \<open>2 ^ 32\<close>
  of the bytes unread.
\<close>

theorem decode_consumes_encoded_counterexample:
  "fst (pl_write_atom host_le (sink (2 ^ 32 + 5)) 7 (replicate (2 ^ 32 + 1) 0x41)) = Inr ()
   \<and> length (emitted (sink (2 ^ 32 + 5))
               (snd (pl_write_atom host_le (sink (2 ^ 32 + 5)) 7 (replicate (2 ^ 32 + 1) 0x41))))
       = 2 ^ 32 + 5
   \<and> pl_read_atom host_le
        (source (emitted (sink (2 ^ 32 + 5))
                   (snd (pl_write_atom host_le (sink (2 ^ 32 + 5)) 7 (replicate (2 ^ 32 + 1) 0x41)))))
        7
      = (Inr [0x41],
         \<lparr>encoding = ENC_ISO_LATIN_1, pending = replicate (2 ^ 32) 0x41, written = [], room = 0\<rparr>)"
proof -
  have p32: "(2 :: nat) ^ 32 = 4294967296" "(4294967296 :: nat) + 5 = 4294967301"
    "(4294967296 :: nat) + 1 = 4294967297"
    by simp_all
  have t: "utf8_text (replicate 4294967297 (0x41 :: byte)) = replicate 4294967297 0x41"
    by (rule utf8_text_ascii) simp
  have w: "fst (pl_write_atom host_le (sink 4294967301) 7 (replicate 4294967297 0x41)) = Inr ()"
    by (simp add: pl_write_atom_eq t sink_def)
  have n: "(word_of_nat (length (replicate 4294967297 (0x41 :: byte))) :: cint) = 1"
    by simp
  have s: "replicate 4294967297 (0x41 :: byte) = 0x41 # replicate 4294967296 0x41"
  proof -
    have "(4294967297 :: nat) = Suc 4294967296" by simp
    then show ?thesis by (simp only: replicate_Suc)
  qed
  have e0: "emitted (sink 4294967301)
             (snd (pl_write_atom host_le (sink 4294967301) 7 (replicate 4294967297 0x41)))
           = be_bytes 1 @ replicate 4294967297 0x41"
    by (simp only: pl_write_atom_emitted [OF w] n t)
  have e: "emitted (sink 4294967301)
             (snd (pl_write_atom host_le (sink 4294967301) 7 (replicate 4294967297 0x41)))
           = be_bytes 1 @ 0x41 # replicate 4294967296 0x41"
    using e0 by (simp only: s)
  have r: "pl_read_atom host_le (source (be_bytes 1 @ 0x41 # replicate 4294967296 0x41)) 7
           = (Inr [0x41],
              \<lparr>encoding = ENC_ISO_LATIN_1, pending = replicate 4294967296 0x41, written = [], room = 0\<rparr>)"
    using pl_read_atom_utf8 [of "[0x41]" host_le
        "source (be_bytes 1 @ 0x41 # replicate 4294967296 0x41)" "replicate 4294967296 0x41" 7]
    by (simp add: source_def utf8_put_char_def)
  show ?thesis
    unfolding p32 using w by (simp only: e r) simp
qed


subsection \<open>Claim on the buffer of \<^verbatim>\<open>pl_read_atom\<close>\<close>

lemma scast_small:
  "((scast (len :: cint) :: size_t) < 1024) = (0 \<le> sint len \<and> sint len < 1024)"
proof -
  have "uint (scast len :: size_t) = uint (word_of_int (sint len) :: size_t)"
    by (simp only: scast_eq)
  also have "\<dots> = take_bit LENGTH(64) (sint len)"
    by (rule uint_word_of_int_eq)
  finally have u: "uint (scast len :: size_t) = take_bit 64 (sint len)"
    by simp
  have lt: "((scast len :: size_t) < 1024) = (take_bit 64 (sint len) < 1024)"
    by (simp add: word_less_alt u)
  show ?thesis
  proof (cases "sint len < 0")
    case True
    have "- (2 ^ 31) \<le> sint len"
      using sint_ge [of len] by simp
    moreover have "sint len + 2 ^ 64 \<le> take_bit 64 (sint len)"
      using True by (rule take_bit_int_greater_eq)
    ultimately have "\<not> take_bit 64 (sint len) < 1024"
      by simp
    with True show ?thesis
      by (simp add: lt)
  next
    case False
    moreover have "sint len < 2 ^ 31"
      using sint_lt [of len] by simp
    ultimately have "take_bit 64 (sint len) = sint len"
      by (intro take_bit_int_eq_self) simp_all
    with False show ?thesis
      by (simp add: lt)
  qed
qed

lemma choose_buffer_eq:
  "choose_buffer h len =
     (if 0 \<le> sint len \<and> sint len < 1024 then Some Stack_buf
      else if malloc_ok h (scast len) then Some Heap_buf
      else None)"
  by (simp add: choose_buffer_def scast_small)

lemma pl_read_atom_no_memory:
  assumes "pending r = be_bytes len @ rest" and "choose_buffer h len = None"
  shows "pl_read_atom h r stream = (Inl (Resource_error ''memory''), r\<lparr>pending := rest\<rparr>)"
  using assms(2)
  by (simp add: pl_read_atom_def read_int32_be_bytes [OF assms(1)] resource_error_def)

lemma pl_read_atom_with_buffer:
  assumes "pending r = be_bytes len @ rest" and "choose_buffer h len = Some b"
  shows "\<forall>w. fst (pl_read_atom h r stream) \<noteq> Inl (Resource_error w)"
proof -
  obtain y s2 where ch: "read_chars (nat (sint len)) (r\<lparr>pending := rest, encoding := ENC_UTF8\<rparr>) = (y, s2)"
    by (cases "read_chars (nat (sint len)) (r\<lparr>pending := rest, encoding := ENC_UTF8\<rparr>)")
  show ?thesis
    using assms(2)
    by (simp add: pl_read_atom_def read_int32_be_bytes [OF assms(1)] ch io_error_def Let_def
        split: option.splits)
qed

text \<open>
  C8, as the code has it. Let \<open>len\<close> be the count \<^verbatim>\<open>pl_read_atom\<close> has read. When
  \<open>0 \<le> len < 1024\<close> the stack buffer is used and the call never raises a resource
  error. When \<open>len\<close> is 1024 or more, \<^verbatim>\<open>malloc\<close> is called with \<open>len\<close>; the call raises
  \<open>resource_error("memory")\<close> exactly when that allocation fails, and then only the
  four bytes of the count have been taken from the stream.
\<close>

theorem read_atom_buffer_choice:
  assumes "pending r = be_bytes len @ rest"
  shows "(0 \<le> sint len \<and> sint len < 1024 \<longrightarrow>
            choose_buffer h len = Some Stack_buf
            \<and> (\<forall>w. fst (pl_read_atom h r stream) \<noteq> Inl (Resource_error w)))
         \<and> (1024 \<le> sint len \<longrightarrow>
            choose_buffer h len = (if malloc_ok h (scast len) then Some Heap_buf else None)
            \<and> (fst (pl_read_atom h r stream) = Inl (Resource_error ''memory''))
                = (\<not> malloc_ok h (scast len))
            \<and> (\<not> malloc_ok h (scast len) \<longrightarrow>
                 snd (pl_read_atom h r stream) = r\<lparr>pending := rest\<rparr>))"
proof (intro conjI impI)
  assume a: "0 \<le> sint len \<and> sint len < 1024"
  then show b: "choose_buffer h len = Some Stack_buf"
    by (simp add: choose_buffer_eq)
  show "\<forall>w. fst (pl_read_atom h r stream) \<noteq> Inl (Resource_error w)"
    using assms b by (rule pl_read_atom_with_buffer)
next
  assume a: "1024 \<le> sint len"
  then show b: "choose_buffer h len = (if malloc_ok h (scast len) then Some Heap_buf else None)"
    by (simp add: choose_buffer_eq)
  show "(fst (pl_read_atom h r stream) = Inl (Resource_error ''memory''))
        = (\<not> malloc_ok h (scast len))"
  proof (cases "malloc_ok h (scast len)")
    case True
    with b have "choose_buffer h len = Some Heap_buf" by simp
    with assms have "\<forall>w. fst (pl_read_atom h r stream) \<noteq> Inl (Resource_error w)"
      by (rule pl_read_atom_with_buffer)
    with True show ?thesis by simp
  next
    case False
    with b have "choose_buffer h len = None" by simp
    with assms have "pl_read_atom h r stream = (Inl (Resource_error ''memory''), r\<lparr>pending := rest\<rparr>)"
      by (rule pl_read_atom_no_memory)
    with False show ?thesis by simp
  qed
  assume m: "\<not> malloc_ok h (scast len)"
  with b have "choose_buffer h len = None" by simp
  with assms have "pl_read_atom h r stream = (Inl (Resource_error ''memory''), r\<lparr>pending := rest\<rparr>)"
    by (rule pl_read_atom_no_memory)
  then show "snd (pl_read_atom h r stream) = r\<lparr>pending := rest\<rparr>"
    by simp
qed

lemma read_atom_negative_count:
  assumes "pending r = be_bytes len @ rest" and "sint len < 0"
  shows "choose_buffer h len = (if malloc_ok h (scast len) then Some Heap_buf else None)"
    and "\<not> malloc_ok h (scast len) \<Longrightarrow>
         pl_read_atom h r stream = (Inl (Resource_error ''memory''), r\<lparr>pending := rest\<rparr>)"
proof -
  show b: "choose_buffer h len = (if malloc_ok h (scast len) then Some Heap_buf else None)"
    using assms(2) by (simp add: choose_buffer_eq)
  assume "\<not> malloc_ok h (scast len)"
  with b have "choose_buffer h len = None" by simp
  with assms(1) show "pl_read_atom h r stream
                      = (Inl (Resource_error ''memory''), r\<lparr>pending := rest\<rparr>)"
    by (rule pl_read_atom_no_memory)
qed

text \<open>
  C8 as stated, for every count below 1024, fails for the negative ones: the comparison
  \<^verbatim>\<open>len < sizeof(buf)\<close> is made in \<^verbatim>\<open>size_t\<close>. On the prefix FF FF FF FF the count is
  \<open>-1\<close>, the code asks \<^verbatim>\<open>malloc\<close> for \<open>2 ^ 64 - 1\<close> bytes, and on a host that
  cannot serve them the call raises \<open>resource_error("memory")\<close>.
\<close>

theorem read_atom_buffer_choice_counterexample:
  "fst (read_int32 host_le (source [0xFF, 0xFF, 0xFF, 0xFF, 0x41]) 7) = Inr (- 1)
   \<and> sint (- 1 :: cint) < 1024
   \<and> choose_buffer host_le (- 1) = None
   \<and> pl_read_atom host_le (source [0xFF, 0xFF, 0xFF, 0xFF, 0x41]) 7
       = (Inl (Resource_error ''memory''),
          \<lparr>encoding = ENC_ISO_LATIN_1, pending = [0x41], written = [], room = 0\<rparr>)"
proof -
  have b: "be_bytes (- 1) = [0xFF, 0xFF, 0xFF, 0xFF]"
    by (simp add: be_bytes_def ucast_mask_byte ucast_m1_byte)
  have p: "pending (source [0xFF, 0xFF, 0xFF, 0xFF, 0x41]) = be_bytes (- 1) @ [0x41]"
    by (simp add: b source_def)
  have "\<not> (- 1 :: size_t) \<le> 0x10000"
    by (simp add: word_le_def unsigned_minus_1_eq_mask mask_eq_exp_minus_1)
  then have c: "choose_buffer host_le (- 1) = None"
    by (simp add: choose_buffer_eq host_le_def)
  show ?thesis
    using c read_int32_be_bytes [OF p, of host_le 7] pl_read_atom_no_memory [OF p c, of 7]
    by (simp add: source_def)
qed

theorem read_atom_buffer_choice_witness:
  "pending (source [0, 0, 4, 0]) = be_bytes 1024 @ []
   \<and> sint (1024 :: cint) = 1024
   \<and> malloc_ok (host_le\<lparr>malloc_ok := \<lambda>n. False\<rparr>) (scast (1024 :: cint)) = False
   \<and> pl_read_atom (host_le\<lparr>malloc_ok := \<lambda>n. False\<rparr>) (source [0, 0, 4, 0]) 7
       = (Inl (Resource_error ''memory''), (source [0, 0, 4, 0])\<lparr>pending := []\<rparr>)
   \<and> pending (source [0, 0, 3, 0xFF]) = be_bytes 1023 @ []
   \<and> sint (1023 :: cint) = 1023
   \<and> choose_buffer (host_le\<lparr>malloc_ok := \<lambda>n. False\<rparr>) 1023 = Some Stack_buf
   \<and> fst (pl_read_atom (host_le\<lparr>malloc_ok := \<lambda>n. False\<rparr>) (source [0, 0, 3, 0xFF]) 7)
       \<noteq> Inl (Resource_error ''memory'')"
proof -
  let ?h = "host_le\<lparr>malloc_ok := \<lambda>n. False\<rparr>"
  have p1: "pending (source [0, 0, 4, 0]) = be_bytes 1024 @ []"
    by (simp add: source_def be_bytes_def)
  have p2: "pending (source [0, 0, 3, 0xFF]) = be_bytes 1023 @ []"
    by (simp add: source_def be_bytes_def)
  have s1: "sint (1024 :: cint) = 1024" and s2: "sint (1023 :: cint) = 1023"
    by simp_all
  have m: "malloc_ok ?h (scast (1024 :: cint)) = False"
    by simp
  note T1 = read_atom_buffer_choice [OF p1, of ?h 7]
  note T2 = read_atom_buffer_choice [OF p2, of ?h 7]
  have r1: "pl_read_atom ?h (source [0, 0, 4, 0]) 7
            = (Inl (Resource_error ''memory''), (source [0, 0, 4, 0])\<lparr>pending := []\<rparr>)"
    using T1 s1 m by (simp add: prod_eq_iff)
  have r2: "choose_buffer ?h 1023 = Some Stack_buf
            \<and> fst (pl_read_atom ?h (source [0, 0, 3, 0xFF]) 7) \<noteq> Inl (Resource_error ''memory'')"
    using T2 s2 by simp
  show ?thesis
    using p1 p2 s1 s2 m r1 r2 by blast
qed

subsection \<open>Claim on input/output failures\<close>

















subsection \<open>Claim on code points above 255\<close>

lemma uint_byte_mod: "uint (word_of_int c :: byte) = c mod 256"
  by (simp add: uint_word_of_int)

text \<open>
  C10: \<^verbatim>\<open>pl_read_atom\<close> stores each decoded code point into one \<^verbatim>\<open>char\<close>. For a count
  followed by the UTF-8 sequences of any code points below \<open>2 ^ 31\<close> it succeeds, and
  the text holds each code point modulo 256; a code point above 255 is therefore not
  returned as itself.
\<close>

theorem read_atom_truncates_code_points:
  assumes "\<forall>c \<in> set cs. 0 \<le> c \<and> c < 0x80000000"
    and "length cs < 2 ^ 31"
    and "1024 \<le> length cs \<longrightarrow> malloc_ok h (word_of_nat (length cs))"
    and "pending r = be_bytes (word_of_nat (length cs)) @ concat (map utf8_put_char cs) @ rest"
  shows "pl_read_atom h r stream = (Inr (map word_of_int cs), r\<lparr>pending := rest\<rparr>)
         \<and> (\<forall>c \<in> set cs. uint (word_of_int c :: byte) = c mod 256)
         \<and> (\<forall>c \<in> set cs. 255 < c \<longrightarrow> uint (word_of_int c :: byte) \<noteq> c)"
proof (intro conjI ballI impI)
  show "pl_read_atom h r stream = (Inr (map word_of_int cs), r\<lparr>pending := rest\<rparr>)"
    using assms by (rule pl_read_atom_utf8)
next
  fix c
  show "uint (word_of_int c :: byte) = c mod 256"
    by (rule uint_byte_mod)
next
  fix c :: int
  assume "255 < c"
  moreover have "uint (word_of_int c :: byte) < 256"
    by (rule uint_byte_lt)
  ultimately show "uint (word_of_int c :: byte) \<noteq> c"
    by simp
qed

theorem read_atom_truncates_code_points_witness:
  "(0 :: int) \<le> 0x20AC \<and> (0x20AC :: int) < 0x80000000
   \<and> (0 :: int) \<le> 0x1F600 \<and> (0x1F600 :: int) < 0x80000000
   \<and> length [0x20AC, 0x1F600 :: int] < 2 ^ 31
   \<and> pending (source [0, 0, 0, 2, 0xE2, 0x82, 0xAC, 0xF0, 0x9F, 0x98, 0x80, 9])
       = be_bytes (word_of_nat (length [0x20AC, 0x1F600 :: int]))
         @ concat (map utf8_put_char [0x20AC, 0x1F600]) @ [9]
   \<and> pl_read_atom host_le (source [0, 0, 0, 2, 0xE2, 0x82, 0xAC, 0xF0, 0x9F, 0x98, 0x80, 9]) 7
       = (Inr [0xAC, 0x00],
          (source [0, 0, 0, 2, 0xE2, 0x82, 0xAC, 0xF0, 0x9F, 0x98, 0x80, 9])\<lparr>pending := [9]\<rparr>)"
proof -
  have c: "\<forall>c \<in> set [0x20AC, 0x1F600 :: int]. 0 \<le> c \<and> c < 0x80000000"
    by simp
  have l: "length [0x20AC, 0x1F600 :: int] < 2 ^ 31"
    by simp
  have m: "1024 \<le> length [0x20AC, 0x1F600 :: int]
           \<longrightarrow> malloc_ok host_le (word_of_nat (length [0x20AC, 0x1F600 :: int]))"
    by simp
  have p: "pending (source [0, 0, 0, 2, 0xE2, 0x82, 0xAC, 0xF0, 0x9F, 0x98, 0x80, 9])
       = be_bytes (word_of_nat (length [0x20AC, 0x1F600 :: int]))
         @ concat (map utf8_put_char [0x20AC, 0x1F600]) @ [9]"
    by (simp add: source_def be_bytes_def utf8_put_char_def cont_def)
  show ?thesis
    using l p read_atom_truncates_code_points [OF c l m p, of 7] by simp
qed


end
